theory Spec2Isabelle
  imports Main "HOL-Library.Sublist"
begin

section \<open>The Python runtime the program relies on\<close>

text \<open>
  A Python \<open>str\<close> is modelled as a \<open>string\<close>: a list of characters, each standing for
  the code point of the same number (0 to 255, the Latin-1 range). The character classes
  below are the ones the interpreter uses on that range. Exceptions are modelled by their
  class, which is what the \<open>except\<close> clauses of the program dispatch on.
\<close>

datatype error = ValueError | OverflowError | IOError

definition py_isspace :: "char \<Rightarrow> bool" where
  \<comment> \<open>\<open>str.isspace\<close>, the characters \<open>str.strip()\<close> and \<open>str.split()\<close> treat as whitespace\<close>
  "py_isspace c = (let n = (of_char c :: nat) in
     (9 \<le> n \<and> n \<le> 13) \<or> (28 \<le> n \<and> n \<le> 32) \<or> n = 133 \<or> n = 160)"

definition re_digit :: "char \<Rightarrow> bool" where
  \<comment> \<open>the class \<open>\d\<close> of the \<open>re\<close> module\<close>
  "re_digit c = (let n = (of_char c :: nat) in 48 \<le> n \<and> n \<le> 57)"

definition py_isdigit_char :: "char \<Rightarrow> bool" where
  \<comment> \<open>the characters \<open>str.isdigit\<close> accepts: the decimal digits and the superscripts 1, 2, 3\<close>
  "py_isdigit_char c = (let n = (of_char c :: nat) in
     (48 \<le> n \<and> n \<le> 57) \<or> n = 178 \<or> n = 179 \<or> n = 185)"

definition py_isdigit :: "string \<Rightarrow> bool" where
  "py_isdigit s = (s \<noteq> [] \<and> list_all py_isdigit_char s)"

definition lstrip :: "string \<Rightarrow> string" where
  "lstrip s = dropWhile py_isspace s"

definition rstrip :: "string \<Rightarrow> string" where
  "rstrip s = rev (dropWhile py_isspace (rev s))"

definition strip :: "string \<Rightarrow> string" where
  "strip s = rstrip (lstrip s)"

fun digits_value :: "nat \<Rightarrow> string \<Rightarrow> nat" where
  "digits_value acc [] = acc"
| "digits_value acc (c # cs) = digits_value (10 * acc + (of_char c - 48)) cs"

definition int_max_str_digits :: nat where
  \<comment> \<open>the interpreter's default bound on the length of a decimal string that \<open>int()\<close> converts\<close>
  "int_max_str_digits = 4300"

definition py_int :: "string \<Rightarrow> error + nat" where
  \<comment> \<open>\<open>int(s)\<close> for a string that passed \<open>isdigit()\<close> or matched \<open>\d+\<close>: no sign, no blank\<close>
  "py_int s =
     (if s = [] \<or> \<not> list_all re_digit s then Inl ValueError
      else if int_max_str_digits < length s then Inl ValueError
      else Inr (digits_value 0 s))"

subsection \<open>Binary floating point\<close>

text \<open>
  A finite non-negative double is a pair \<open>(m, e)\<close> standing for \<open>m * 2 ^ e\<close>. Rounding is
  to the nearest value with a 53-bit significand, ties to even. The operands met here are
  integers and quotients by 100, so no result lies in the subnormal range.
\<close>

fun bit_length :: "nat \<Rightarrow> nat" where
  "bit_length n = (if n = 0 then 0 else Suc (bit_length (n div 2)))"

declare bit_length.simps [simp del]

definition round53 :: "nat \<Rightarrow> int \<Rightarrow> nat \<times> int" where
  "round53 m e =
     (let k = bit_length m - 53 in
      if k = 0 then (m, e)
      else
        let q = m div 2 ^ k; r = m mod 2 ^ k; h = 2 ^ (k - 1);
            q' = (if h < r \<or> (r = h \<and> odd q) then q + 1 else q)
        in (q', e + int k))"

definition dbl_overflow :: "nat \<times> int \<Rightarrow> bool" where
  \<comment> \<open>the value is \<open>2 ^ 1024\<close> or more\<close>
  "dbl_overflow d = (case d of (m, e) \<Rightarrow> m \<noteq> 0 \<and> 1024 < int (bit_length m) + e)"

definition int_to_double :: "nat \<Rightarrow> error + nat \<times> int" where
  "int_to_double n =
     (let d = round53 n 0 in if dbl_overflow d then Inl OverflowError else Inr d)"

definition py_truediv :: "nat \<Rightarrow> nat \<Rightarrow> error + nat \<times> int" where
  \<comment> \<open>\<open>n / d\<close> on integers with \<open>0 < d\<close>: the correctly rounded quotient\<close>
  "py_truediv n d =
     (if n = 0 then Inr (0, 0)
      else
        let s = 55 + int (bit_length d) - int (bit_length n);
            num = (if 0 \<le> s then n * 2 ^ nat s else n);
            den = (if 0 \<le> s then d else d * 2 ^ nat (- s));
            q = num div den;
            sticky = (if num mod den = 0 then 0 else 1);
            r = round53 (2 * q + sticky) (- s - 1)
        in if dbl_overflow r then Inl OverflowError else Inr r)"

definition dbl_mul :: "nat \<times> int \<Rightarrow> nat \<times> int \<Rightarrow> nat \<times> int" where
  "dbl_mul a b = (case a of (m1, e1) \<Rightarrow> case b of (m2, e2) \<Rightarrow> round53 (m1 * m2) (e1 + e2))"

definition dbl_trunc :: "nat \<times> int \<Rightarrow> int" where
  \<comment> \<open>\<open>int(x)\<close> on a finite double: the integer part\<close>
  "dbl_trunc d =
     (case d of (m, e) \<Rightarrow> if 0 \<le> e then int m * 2 ^ nat e else int (m div 2 ^ nat (- e)))"

definition percent_of :: "int \<Rightarrow> nat \<Rightarrow> error + int" where
  \<comment> \<open>\<open>int(base * (percent / 100))\<close>\<close>
  "percent_of base percent =
     (case py_truediv percent 100 of
        Inl e \<Rightarrow> Inl e
      | Inr x \<Rightarrow>
          (case int_to_double (nat \<bar>base\<bar>) of
             Inl e \<Rightarrow> Inl e
           | Inr b \<Rightarrow>
               let y = dbl_mul b x
               in if dbl_overflow y then Inl OverflowError
                  else Inr (sgn base * dbl_trunc y)))"

section \<open>Parsing helpers\<close>

definition fullmatch_percent :: "string \<Rightarrow> string option" where
  \<comment> \<open>\<open>re.fullmatch(r"%?(\d+)%?", value)\<close>: the digits of group 1, or \<open>None\<close>\<close>
  "fullmatch_percent v =
     (let v1 = (case v of [] \<Rightarrow> [] | c # cs \<Rightarrow> if c = CHR ''%'' then cs else v);
          ds = takeWhile re_digit v1;
          rest = dropWhile re_digit v1
      in if ds \<noteq> [] \<and> (rest = [] \<or> rest = ''%'') then Some ds else None)"

definition parse_padding :: "string \<Rightarrow> int \<Rightarrow> error + int" where
  "parse_padding padding_str image_height =
     (let padding_str = strip padding_str;
          percent_match = fullmatch_percent padding_str
      in if CHR ''%'' \<in> set padding_str \<and> percent_match \<noteq> None then
           (case py_int (the percent_match) of
              Inl e \<Rightarrow> Inl e
            | Inr percent \<Rightarrow> percent_of image_height percent)
         else if py_isdigit padding_str then map_sum id int (py_int padding_str)
         else Inl ValueError)"

definition parse_pixels_or_percent :: "string \<Rightarrow> int \<Rightarrow> error + int" where
  "parse_pixels_or_percent value base =
     (let value = strip value;
          percent_match = fullmatch_percent value
      in if CHR ''%'' \<in> set value \<and> percent_match \<noteq> None then
           (case py_int (the percent_match) of
              Inl e \<Rightarrow> Inl e
            | Inr percent \<Rightarrow> percent_of base percent)
         else if py_isdigit value then map_sum id int (py_int value)
         else Inl ValueError)"

section \<open>Layout origin\<close>

text \<open>
  The two \<open>if\<close>/\<open>elif\<close>/\<open>else\<close> chains of \<open>process_image\<close> that place the text block:
  \<open>height\<close> is the height of the source image (the top of the band), \<open>bottom_padding\<close> the
  height of the band. Python's \<open>//\<close> rounds towards minus infinity, as \<open>div\<close> on \<open>int\<close> does.
\<close>

definition origin_y :: "string \<Rightarrow> int \<Rightarrow> int \<Rightarrow> int \<Rightarrow> int" where
  "origin_y valign height bottom_padding text_height =
     (if valign = ''top'' then height + 10
      else if valign = ''bottom'' then height + bottom_padding - text_height - 10
      else height + (bottom_padding - text_height) div 2)"

definition origin_x :: "string \<Rightarrow> int \<Rightarrow> int \<Rightarrow> int" where
  "origin_x align width text_width =
     (if align = ''left'' then 20
      else if align = ''right'' then width - text_width - 20
      else (width - text_width) div 2)"

section \<open>Strings and the \<open>textwrap\<close> module\<close>

subsection \<open>Strings\<close>

fun replace_escaped_newlines :: "string \<Rightarrow> string" where
  \<comment> \<open>\<open>text.replace("\\n", "\n")\<close>: backslash followed by \<open>n\<close> becomes a line feed\<close>
  "replace_escaped_newlines (a # b # cs) =
     (if a = CHR 0x5C \<and> b = CHR ''n'' then CHR 0x0A # replace_escaped_newlines cs
      else a # replace_escaped_newlines (b # cs))"
| "replace_escaped_newlines cs = cs"

fun split_on :: "char \<Rightarrow> string \<Rightarrow> string list" where
  \<comment> \<open>\<open>s.split(sep)\<close> for a separator of one character\<close>
  "split_on sep [] = [[]]"
| "split_on sep (c # cs) =
     (if c = sep then [] # split_on sep cs
      else (case split_on sep cs of [] \<Rightarrow> [[c]] | p # ps \<Rightarrow> (c # p) # ps))"

fun join :: "string \<Rightarrow> string list \<Rightarrow> string" where
  \<comment> \<open>\<open>sep.join(xs)\<close>\<close>
  "join sep [] = []"
| "join sep [x] = x"
| "join sep (x # y # ys) = x @ sep @ join sep (y # ys)"

fun split_ws :: "string \<Rightarrow> string \<Rightarrow> string list" where
  "split_ws cur [] = (if cur = [] then [] else [cur])"
| "split_ws cur (c # cs) =
     (if py_isspace c then (if cur = [] then split_ws [] cs else cur # split_ws [] cs)
      else split_ws (cur @ [c]) cs)"

definition py_split :: "string \<Rightarrow> string list" where
  \<comment> \<open>\<open>s.split()\<close>: the maximal runs of characters that are not whitespace\<close>
  "py_split s = split_ws [] s"

fun expandtabs :: "nat \<Rightarrow> string \<Rightarrow> string" where
  \<comment> \<open>\<open>s.expandtabs(8)\<close>, from column \<open>col\<close>; a line feed or carriage return resets the column\<close>
  "expandtabs col [] = []"
| "expandtabs col (c # cs) =
     (if c = CHR 0x09 then
        replicate (8 - col mod 8) (CHR '' '') @ expandtabs (col + (8 - col mod 8)) cs
      else if c = CHR 0x0A \<or> c = CHR 0x0D then c # expandtabs 0 cs
      else c # expandtabs (Suc col) cs)"

subsection \<open>The \<open>textwrap\<close> module\<close>

definition tw_whitespace :: "char \<Rightarrow> bool" where
  \<comment> \<open>the six characters of \<open>textwrap._whitespace\<close>\<close>
  "tw_whitespace c = (let n = (of_char c :: nat) in (9 \<le> n \<and> n \<le> 13) \<or> n = 32)"

definition re_word :: "char \<Rightarrow> bool" where
  \<comment> \<open>the class \<open>\w\<close>\<close>
  "re_word c = (let n = (of_char c :: nat) in
     (48 \<le> n \<and> n \<le> 57) \<or> (65 \<le> n \<and> n \<le> 90) \<or> n = 95 \<or> (97 \<le> n \<and> n \<le> 122)
     \<or> n = 170 \<or> n = 178 \<or> n = 179 \<or> n = 181 \<or> n = 185 \<or> n = 186
     \<or> (188 \<le> n \<and> n \<le> 190) \<or> (192 \<le> n \<and> n \<le> 214) \<or> (216 \<le> n \<and> n \<le> 246)
     \<or> 248 \<le> n)"

definition re_letter :: "char \<Rightarrow> bool" where
  \<comment> \<open>the class \<open>[^\d\W]\<close>\<close>
  "re_letter c = (re_word c \<and> \<not> re_digit c)"

definition word_punct :: "char \<Rightarrow> bool" where
  \<comment> \<open>the class \<open>[\w!"'&.,?]\<close>\<close>
  "word_punct c = (re_word c \<or> c \<in> set ''!\"&.,?'' \<or> c = CHR 0x27)"

definition munge_whitespace :: "string \<Rightarrow> string" where
  "munge_whitespace text =
     map (\<lambda>c. if tw_whitespace c then CHR '' '' else c) (expandtabs 0 text)"

definition is_hyphen :: "char \<Rightarrow> bool" where
  "is_hyphen c = (c = CHR ''-'')"

definition emdash_ahead :: "string \<Rightarrow> bool" where
  \<comment> \<open>the lookahead \<open>(?=-{2,}\w)\<close>\<close>
  "emdash_ahead s =
     (2 \<le> length (takeWhile is_hyphen s)
      \<and> (case dropWhile is_hyphen s of [] \<Rightarrow> False | c # cs \<Rightarrow> re_word c))"

definition hyphen_break :: "string \<Rightarrow> string \<Rightarrow> bool" where
  \<comment> \<open>at a hyphen, with \<open>back\<close> the text before it, last character first, and \<open>ahead\<close> the
      text after it: the lookbehind \<open>(?<=[^\d\W]{2}-) | (?<=[^\d\W]-[^\d\W]-)\<close> and the
      lookahead \<open>(?=[^\d\W]-?[^\d\W])\<close>\<close>
  "hyphen_break back ahead =
     ((case back of
         b1 # b2 # bs \<Rightarrow>
           re_letter b1 \<and>
           (re_letter b2
            \<or> (is_hyphen b2 \<and> (case bs of [] \<Rightarrow> False | b3 # _ \<Rightarrow> re_letter b3)))
       | _ \<Rightarrow> False)
      \<and> (case ahead of
            l1 # l2 # ls \<Rightarrow>
              re_letter l1 \<and>
              ((is_hyphen l2 \<and> (case ls of [] \<Rightarrow> False | l3 # _ \<Rightarrow> re_letter l3))
               \<or> re_letter l2)
          | _ \<Rightarrow> False))"

fun word_end :: "string \<Rightarrow> string \<Rightarrow> nat" where
  \<comment> \<open>inside a word chunk, with \<open>back\<close> the text read so far, last character first: how
      many more characters the lazy \<open>[^ws]+?\<close> and its three endings take\<close>
  "word_end back [] = 0"
| "word_end back (c # cs) =
     (if is_hyphen c \<and> hyphen_break back cs then 1
      else if tw_whitespace c then 0
      else if (case back of [] \<Rightarrow> False | b # _ \<Rightarrow> word_punct b) \<and> emdash_ahead (c # cs) then 0
      else Suc (word_end (c # back) cs))"

definition chunk_rest :: "string \<Rightarrow> char \<Rightarrow> string \<Rightarrow> nat" where
  \<comment> \<open>the chunk that starts with \<open>c\<close>: how many characters of \<open>cs\<close> it takes, by the three
      alternatives of \<open>wordsep_re\<close> in their order\<close>
  "chunk_rest back c cs =
     (if tw_whitespace c then length (takeWhile tw_whitespace cs)
      else if (case back of [] \<Rightarrow> False | b # _ \<Rightarrow> word_punct b) \<and> emdash_ahead (c # cs)
        then length (takeWhile is_hyphen cs)
      else word_end (c # back) cs)"

function split_from :: "string \<Rightarrow> string \<Rightarrow> string list" where
  "split_from back [] = []"
| "split_from back (c # cs) =
     (c # take (chunk_rest back c cs) cs)
       # split_from (rev (take (chunk_rest back c cs) cs) @ c # back)
           (drop (chunk_rest back c cs) cs)"
  by pat_completeness auto
termination
  by (relation "measure (\<lambda>(back, s). length s)") auto

definition tw_split :: "string \<Rightarrow> string list" where
  \<comment> \<open>\<open>TextWrapper._split\<close>: \<open>wordsep_re.split(text)\<close> without the empty strings\<close>
  "tw_split text = split_from [] text"

fun take_fitting :: "nat \<Rightarrow> nat \<Rightarrow> string list \<Rightarrow> string list \<times> string list" where
  \<comment> \<open>the inner \<open>while\<close> of \<open>_wrap_chunks\<close>: the chunks put on the line, and the ones left\<close>
  "take_fitting width cur_len [] = ([], [])"
| "take_fitting width cur_len (c # cs) =
     (if cur_len + length c \<le> width then
        (case take_fitting width (cur_len + length c) cs of (line, rest) \<Rightarrow> (c # line, rest))
      else ([], c # cs))"

definition rfind_hyphen :: "string \<Rightarrow> nat \<Rightarrow> nat option" where
  \<comment> \<open>\<open>chunk.rfind('-', 0, n)\<close>, with \<open>None\<close> for -1\<close>
  "rfind_hyphen chunk n =
     (let pre = take n chunk; after = takeWhile (\<lambda>c. \<not> is_hyphen c) (rev pre)
      in if length after = length pre then None else Some (length pre - 1 - length after))"

definition long_word_end :: "string \<Rightarrow> nat \<Rightarrow> nat" where
  \<comment> \<open>where \<open>_handle_long_word\<close> cuts the chunk: after \<open>space_left\<close> characters, or after
      the last hyphen before that which has a character other than a hyphen before it\<close>
  "long_word_end chunk space_left =
     (if space_left < length chunk then
        (case rfind_hyphen chunk space_left of
           None \<Rightarrow> space_left
         | Some hyphen \<Rightarrow>
             if 0 < hyphen \<and> list_ex (\<lambda>c. \<not> is_hyphen c) (take hyphen chunk)
             then hyphen + 1 else space_left)
      else space_left)"

definition handle_long_word ::
  "string list \<Rightarrow> string list \<Rightarrow> nat \<Rightarrow> nat \<Rightarrow> string list \<times> string list" where
  \<comment> \<open>\<open>_handle_long_word\<close> with \<open>break_long_words\<close> and \<open>break_on_hyphens\<close> set; the chunks
      are given first chunk first, and are not empty; the result is the chunks and the line\<close>
  "handle_long_word chunks cur_line cur_len width =
     (let space_left = (if width < 1 then 1 else width - cur_len);
          chunk = hd chunks;
          end = long_word_end chunk space_left
      in (drop end chunk # tl chunks, cur_line @ [take end chunk]))"

definition wrap_line :: "nat \<Rightarrow> string list \<Rightarrow> bool \<Rightarrow> string list \<times> string list" where
  \<comment> \<open>one pass of the outer \<open>while\<close> of \<open>_wrap_chunks\<close> over chunks that are not empty;
      \<open>started\<close> says that \<open>lines\<close> is not empty; the result is the chunks left and the
      chunks of the line\<close>
  "wrap_line width chunks started =
     (let chunks = (if strip (hd chunks) = [] \<and> started then tl chunks else chunks);
          (cur_line, chunks) = take_fitting width 0 chunks;
          cur_len = sum_list (map length cur_line);
          (chunks, cur_line) =
            (if chunks \<noteq> [] \<and> width < length (hd chunks)
             then handle_long_word chunks cur_line cur_len width
             else (chunks, cur_line));
          cur_line = (if cur_line \<noteq> [] \<and> strip (last cur_line) = []
                      then butlast cur_line else cur_line)
      in (chunks, cur_line))"


lemma take_fitting_append:
  "take_fitting width n cs = (line, rest) \<Longrightarrow> cs = line @ rest"
  by (induction cs arbitrary: n line rest) (auto split: if_splits prod.splits)

lemma take_fitting_stuck:
  "take_fitting width n cs = ([], rest) \<Longrightarrow> rest \<noteq> [] \<Longrightarrow> width < n + length (hd rest)"
  by (cases cs) (auto split: if_splits prod.splits)

definition chunks_size :: "string list \<Rightarrow> nat" where
  "chunks_size chunks = sum_list (map (\<lambda>c. Suc (length c)) chunks)"

lemma long_word_end_pos: "0 < n \<Longrightarrow> 0 < long_word_end c n"
  by (auto simp: long_word_end_def split: option.splits)

lemma handle_long_word_fst:
  "fst (handle_long_word chunks cur_line cur_len width) =
     drop (long_word_end (hd chunks) (if width < 1 then 1 else width - cur_len)) (hd chunks)
       # tl chunks"
  by (simp add: handle_long_word_def Let_def)

lemma handle_long_word_size:
  assumes "chunks \<noteq> []" and "width < length (hd chunks)"
    and "handle_long_word chunks cur_line cur_len width = (chunks', line')"
  shows "chunks_size chunks' \<le> chunks_size chunks"
    and "cur_len = 0 \<Longrightarrow> chunks_size chunks' < chunks_size chunks"
proof -
  obtain c cs where c: "chunks = c # cs" using assms(1) by (cases chunks) auto
  define e where "e = long_word_end c (if width < 1 then 1 else width - cur_len)"
  from handle_long_word_fst [of chunks cur_line cur_len width] assms(3)
  have e: "chunks' = drop e c # cs"
    by (simp add: c e_def)
  show "chunks_size chunks' \<le> chunks_size chunks"
    by (simp add: chunks_size_def c e)
  assume "cur_len = 0"
  then have "0 < e"
    unfolding e_def by (intro long_word_end_pos) simp
  moreover from assms(2) c have "0 < length c" by auto
  ultimately show "chunks_size chunks' < chunks_size chunks"
    by (simp add: chunks_size_def c e)
qed

lemma wrap_line_size:
  assumes "chunks \<noteq> []" and "wrap_line width chunks started = (chunks', line)"
  shows "chunks_size chunks' < chunks_size chunks"
proof -
  define chunks1 where "chunks1 = (if strip (hd chunks) = [] \<and> started then tl chunks else chunks)"
  obtain l r where tf: "take_fitting width 0 chunks1 = (l, r)" by (cases "take_fitting width 0 chunks1")
  have app: "chunks1 = l @ r" using tf by (rule take_fitting_append)
  have s1: "chunks_size chunks1 \<le> chunks_size chunks"
    using assms(1) by (cases chunks) (auto simp: chunks1_def chunks_size_def)
  have s1': "chunks1 \<noteq> chunks \<Longrightarrow> chunks_size chunks1 < chunks_size chunks"
    using assms(1) by (cases chunks) (auto simp: chunks1_def chunks_size_def split: if_splits)
  have s2: "chunks_size r \<le> chunks_size chunks1"
    by (simp add: app chunks_size_def)
  have s2': "l \<noteq> [] \<Longrightarrow> chunks_size r < chunks_size chunks1"
    by (cases l) (auto simp: app chunks_size_def)
  show ?thesis
  proof (cases "r \<noteq> [] \<and> width < length (hd r)")
    case True
    obtain c2 l2 where h: "handle_long_word r l (sum_list (map length l)) width = (c2, l2)"
      by (cases "handle_long_word r l (sum_list (map length l)) width")
    from assms(2) True tf h have c': "chunks' = c2"
      by (auto simp: wrap_line_def chunks1_def [symmetric] Let_def split: prod.splits if_splits)
    from True have rne: "r \<noteq> []" and long: "width < length (hd r)" by simp_all
    have le: "chunks_size c2 \<le> chunks_size r"
      by (rule handle_long_word_size(1) [OF rne long h])
    have lt: "sum_list (map length l) = 0 \<Longrightarrow> chunks_size c2 < chunks_size r"
      by (rule handle_long_word_size(2) [OF rne long h])
    show ?thesis
    proof (cases "l = []")
      case True
      with lt le s2 s1 show ?thesis unfolding c' by simp
    next
      case False
      with s2' le s1 show ?thesis unfolding c' by simp
    qed
  next
    case False
    from assms(2) False tf have c': "chunks' = r"
      by (auto simp: wrap_line_def chunks1_def [symmetric] Let_def split: prod.splits if_splits)
    show ?thesis
    proof (cases "l = []")
      case True
      with app have r: "r = chunks1" by simp
      show ?thesis
      proof (cases "chunks1 = chunks")
        case True
        with r assms(1) have "r \<noteq> []" by simp
        with take_fitting_stuck [of width 0 chunks1 r] tf \<open>l = []\<close> have "width < length (hd r)"
          by simp
        with False \<open>r \<noteq> []\<close> show ?thesis by simp
      next
        case False
        with s1' s2 show ?thesis unfolding c' by simp
      qed
    next
      case False
      with s2' s1 show ?thesis unfolding c' by simp
    qed
  qed
qed

function wrap_loop :: "nat \<Rightarrow> string list \<Rightarrow> string list \<Rightarrow> string list" where
  "wrap_loop width [] lines = lines"
| "wrap_loop width (c # cs) lines =
     (case wrap_line width (c # cs) (lines \<noteq> []) of
        (chunks, cur_line) \<Rightarrow>
          wrap_loop width chunks
            (if cur_line \<noteq> [] then lines @ [concat cur_line] else lines))"
  by pat_completeness auto
termination
  by (relation "measure (\<lambda>(width, chunks, lines). chunks_size chunks)")
     (auto intro!: wrap_line_size [OF _ sym])

definition tw_wrap :: "string \<Rightarrow> int \<Rightarrow> error + string list" where
  \<comment> \<open>\<open>TextWrapper(width=width).wrap(text)\<close>\<close>
  "tw_wrap text width =
     (let chunks = tw_split (munge_whitespace text)
      in if width \<le> 0 then Inl ValueError else Inr (wrap_loop (nat width) chunks []))"

definition tw_fill :: "string \<Rightarrow> int \<Rightarrow> error + string" where
  \<comment> \<open>\<open>textwrap.fill(text, width=width)\<close>\<close>
  "tw_fill text width = map_sum id (join [CHR 0x0A]) (tw_wrap text width)"

fun wrapped_blocks :: "int \<Rightarrow> string list \<Rightarrow> error + string list" where
  "wrapped_blocks approx_chars_per_line [] = Inr []"
| "wrapped_blocks approx_chars_per_line (paragraph # rest) =
     (case (if strip paragraph = [] then Inr [] else tw_fill paragraph approx_chars_per_line) of
        Inl e \<Rightarrow> Inl e
      | Inr block \<Rightarrow>
          (case wrapped_blocks approx_chars_per_line rest of
             Inl e \<Rightarrow> Inl e
           | Inr blocks \<Rightarrow> Inr (block # blocks)))"

definition wrap_for_multiline :: "'draw \<Rightarrow> string \<Rightarrow> 'font \<Rightarrow> int \<Rightarrow> error + string" where
  "wrap_for_multiline draw text font max_width =
     (let text = replace_escaped_newlines text;
          approx_chars_per_line = max_width div 5
      in map_sum id (join [CHR 0x0A])
           (wrapped_blocks approx_chars_per_line (split_on (CHR 0x0A) text)))"

section \<open>The program\<close>

subsection \<open>Wrapping\<close>




subsection \<open>Fonts and colours\<close>

definition endswith :: "string \<Rightarrow> string \<Rightarrow> bool" where
  \<comment> \<open>\<open>s.endswith(ending)\<close>\<close>
  "endswith s ending =
     (length ending \<le> length s \<and> drop (length s - length ending) s = ending)"

definition load_font ::
  "(string \<Rightarrow> int \<Rightarrow> error + 'font) \<Rightarrow> 'font \<Rightarrow> string \<Rightarrow> int \<Rightarrow> error + 'font" where
  \<comment> \<open>\<open>truetype\<close> stands for \<open>ImageFont.truetype\<close> and \<open>load_default\<close> for the font that
      \<open>ImageFont.load_default()\<close> returns\<close>
  "load_font truetype load_default font_path font_size =
     (let font_path = (if \<not> endswith font_path ''.ttf'' then font_path @ ''.ttf'' else font_path)
      in case (if font_path \<noteq> [] then truetype font_path font_size
               else truetype ''arial.ttf'' font_size) of
           Inl IOError \<Rightarrow> Inr load_default
         | Inl e \<Rightarrow> Inl e
         | Inr font \<Rightarrow> Inr font)"

definition fullmatch_rgb :: "string \<Rightarrow> bool" where
  \<comment> \<open>\<open>re.fullmatch(r"\d{1,3},\d{1,3},\d{1,3}", s)\<close>\<close>
  "fullmatch_rgb s =
     (case split_on (CHR '','') s of
        [r, g, b] \<Rightarrow>
          list_all (\<lambda>p. 1 \<le> length p \<and> length p \<le> 3 \<and> list_all re_digit p) [r, g, b]
      | _ \<Rightarrow> False)"

definition hex_digit :: "char \<Rightarrow> bool" where
  "hex_digit c = (let n = (of_char c :: nat) in
     (48 \<le> n \<and> n \<le> 57) \<or> (65 \<le> n \<and> n \<le> 70) \<or> (97 \<le> n \<and> n \<le> 102))"

definition fullmatch_hex :: "string \<Rightarrow> bool" where
  \<comment> \<open>\<open>re.fullmatch(r"[0-9a-fA-F]{6}|[0-9a-fA-F]{3}", s)\<close>\<close>
  "fullmatch_hex s = ((length s = 6 \<or> length s = 3) \<and> list_all hex_digit s)"

definition parse_color :: "(string \<Rightarrow> error + int list) \<Rightarrow> string \<Rightarrow> error + int list" where
  \<comment> \<open>\<open>getrgb\<close> stands for \<open>ImageColor.getrgb\<close>; a colour is the list of its components\<close>
  "parse_color getrgb color_str =
     (let color_str = strip color_str
      in if fullmatch_rgb color_str then
           (let rgb = map (\<lambda>p. int (digits_value 0 p)) (split_on (CHR '','') color_str)
            in if list_ex (\<lambda>v. \<not> (0 \<le> v \<and> v \<le> 255)) rgb then Inl ValueError else Inr rgb)
         else
           (let color_str = (if fullmatch_hex color_str then ''#'' @ color_str else color_str)
            in case getrgb color_str of
                 Inl ValueError \<Rightarrow> Inl ValueError
               | Inl e \<Rightarrow> Inl e
               | Inr rgb \<Rightarrow> Inr rgb))"

subsection \<open>The image pipeline\<close>

text \<open>
  The imaging library is a parameter: a record of the operations the program calls, each
  returning an error or its result. An image is a value; an operation that changes an image
  in place returns the changed image. What the program leaves behind is the file it saves
  and the lines it prints.
\<close>

record ('img, 'font) pil =
  image_open :: "string \<Rightarrow> error + 'img"
  image_size :: "'img \<Rightarrow> int \<times> int"
  image_new :: "int \<times> int \<Rightarrow> int list \<Rightarrow> error + 'img"
  image_paste :: "'img \<Rightarrow> 'img \<Rightarrow> 'img"
  image_save :: "'img \<Rightarrow> string \<Rightarrow> error option"
  getrgb :: "string \<Rightarrow> error + int list"
  truetype :: "string \<Rightarrow> int \<Rightarrow> error + 'font"
  load_default :: "'font"
  multiline_textbbox :: "'img \<Rightarrow> string \<Rightarrow> 'font \<Rightarrow> string \<Rightarrow> error + int \<times> int \<times> int \<times> int"
  multiline_text ::
    "'img \<Rightarrow> int \<times> int \<Rightarrow> string \<Rightarrow> int list \<Rightarrow> 'font \<Rightarrow> string \<Rightarrow> error + 'img"

datatype report = UsageError | Traceback error

record 'img world =
  files :: "string \<rightharpoonup> 'img"
  stdout :: "string list"
  stderr :: "report list"


definition bind :: "error + 'a \<Rightarrow> ('a \<Rightarrow> error + 'b) \<Rightarrow> error + 'b" where
  \<comment> \<open>sequencing: an exception of the first step ends the computation\<close>
  "bind r f = (case r of Inl e \<Rightarrow> Inl e | Inr x \<Rightarrow> f x)"

definition process_image ::
  "('img, 'font) pil \<Rightarrow> string \<Rightarrow> string \<Rightarrow> string \<Rightarrow> string \<Rightarrow> string \<Rightarrow> string \<Rightarrow> string
    \<Rightarrow> int \<Rightarrow> string \<Rightarrow> string \<Rightarrow> string \<Rightarrow> 'img world \<Rightarrow> (error + unit) \<times> 'img world" where
  "process_image pil input_image output_image comment padding bg_color text_color font_path
       font_size align valign wrap_width world =
     (case
        bind (image_open pil input_image) (\<lambda>img.
        case image_size pil img of (width, height) \<Rightarrow>
        bind (parse_padding padding height) (\<lambda>bottom_padding.
        bind (parse_color (getrgb pil) bg_color) (\<lambda>bg_rgb.
        bind (parse_color (getrgb pil) text_color) (\<lambda>text_rgb.
        bind (image_new pil (width, height + bottom_padding) bg_rgb) (\<lambda>new_img.
        let new_img = image_paste pil new_img img in
        bind (load_font (truetype pil) (load_default pil) font_path font_size) (\<lambda>font.
        bind (parse_pixels_or_percent wrap_width width) (\<lambda>max_text_width.
        bind (wrap_for_multiline new_img comment font max_text_width) (\<lambda>wrapped_text.
        bind (multiline_textbbox pil new_img wrapped_text font align) (\<lambda>bbox.
        let text_width = fst (snd (snd bbox)) - fst bbox;
            text_height = snd (snd (snd bbox)) - fst (snd bbox);
            y = origin_y valign height bottom_padding text_height;
            x = origin_x align width text_width
        in multiline_text pil new_img (x, y) wrapped_text text_rgb font align)))))))))
      of
        Inl e \<Rightarrow> (Inl e, world)
      | Inr new_img \<Rightarrow>
          (case image_save pil new_img output_image of
             Some e \<Rightarrow> (Inl e, world)
           | None \<Rightarrow>
               (Inr (),
                world\<lparr>files := (files world)(output_image \<mapsto> new_img),
                      stdout := stdout world @ [''[+] Saved output image to: '' @ output_image]\<rparr>)))"

record cli_args =
  arg_input :: string
  arg_output :: string
  arg_comment :: string
  arg_padding :: string
  arg_bg_color :: string
  arg_text_color :: string
  arg_font :: string
  arg_font_size :: int
  arg_align :: string
  arg_valign :: string
  arg_wrap_width :: string

definition main :: "('img, 'font) pil \<Rightarrow> cli_args \<Rightarrow> 'img world \<Rightarrow> nat \<times> 'img world" where
  \<comment> \<open>\<open>main\<close> after \<open>parse_args\<close>: the exit status and what is left behind.
      \<open>parser.error\<close> reports on the standard error stream and exits with status 2; an
      exception that is not caught ends the process with a traceback and status 1\<close>
  "main pil args world =
     (case process_image pil (arg_input args) (arg_output args) (arg_comment args)
             (arg_padding args) (arg_bg_color args) (arg_text_color args) (arg_font args)
             (arg_font_size args) (arg_align args) (arg_valign args) (arg_wrap_width args)
             world of
        (Inr u, world') \<Rightarrow> (0, world')
      | (Inl ValueError, world') \<Rightarrow> (2, world'\<lparr>stderr := stderr world' @ [UsageError]\<rparr>)
      | (Inl e, world') \<Rightarrow> (1, world'\<lparr>stderr := stderr world' @ [Traceback e]\<rparr>))"

subsection \<open>A stand-in for the imaging library\<close>

definition stub_pil :: "(nat, nat) pil" where
  \<comment> \<open>a deterministic stand-in for the imaging library, to run the pipeline on concrete
      inputs: one input image of 400 by 300 pixels, two named colours, no font file, and
      text that measures 8 pixels a character and 16 pixels a line\<close>
  "stub_pil =
     \<lparr>image_open = (\<lambda>path. if path = ''in.png'' then Inr 1 else Inl IOError),
      image_size = (\<lambda>img. (400, 300)),
      image_new = (\<lambda>size color. Inr 2),
      image_paste = (\<lambda>new_img img. new_img),
      image_save = (\<lambda>img path. None),
      getrgb = (\<lambda>s. if s = ''black'' then Inr [0, 0, 0]
                    else if s = ''white'' then Inr [255, 255, 255] else Inl ValueError),
      truetype = (\<lambda>path size. Inl IOError),
      load_default = 0,
      multiline_textbbox = (\<lambda>img text font align. Inr (0, 0, 8 * int (length text), 16)),
      multiline_text = (\<lambda>img xy text fill font align. Inr img)\<rparr>"

definition stub_args :: cli_args where
  \<comment> \<open>the defaults of the command line, with the three required arguments\<close>
  "stub_args =
     \<lparr>arg_input = ''in.png'', arg_output = ''out.png'', arg_comment = ''Hello world'',
      arg_padding = ''200'', arg_bg_color = ''black'', arg_text_color = ''white'',
      arg_font = ''arial'', arg_font_size = 16, arg_align = ''left'', arg_valign = ''top'',
      arg_wrap_width = ''90%''\<rparr>"

definition empty_world :: "nat world" where
  "empty_world = \<lparr>files = Map.empty, stdout = [], stderr = []\<rparr>"

section \<open>Properties of the dimension parser\<close>

lemma py_isspace_space [simp]: "py_isspace (CHR '' '')"
  by (simp add: py_isspace_def)

lemma lstrip_space [simp]: "lstrip (CHR '' '' # s) = lstrip s"
  by (simp add: lstrip_def)

lemma rstrip_space [simp]: "rstrip (s @ '' '') = rstrip s"
  by (simp add: rstrip_def)

lemma lstrip_append_space: "rstrip (lstrip (s @ '' '')) = rstrip (lstrip s)"
proof (cases "\<forall>c \<in> set s. py_isspace c")
  case True
  then have "lstrip (s @ '' '') = []" and "lstrip s = []"
    by (simp_all add: lstrip_def)
  then show ?thesis by simp
next
  case False
  then have "lstrip (s @ '' '') = lstrip s @ '' ''"
    by (auto simp: lstrip_def dropWhile_append1)
  then show ?thesis by simp
qed

lemma strip_pad_space: "strip ('' '' @ s @ '' '') = strip s"
  by (simp add: strip_def lstrip_append_space)

lemma parse_padding_eq: "parse_padding s b = parse_pixels_or_percent s b"
  by (simp add: parse_padding_def parse_pixels_or_percent_def)

lemma bit_length_0: "bit_length 0 = 0"
  by (simp add: bit_length.simps)

lemma bit_length_Suc0: "bit_length (Suc 0) = 1"
  by (simp add: bit_length.simps)

lemma bit_length_1: "bit_length 1 = 1"
  by (simp add: bit_length.simps)

lemma bit_length_One: "bit_length (numeral Num.One) = 1"
  by (simp add: bit_length.simps)

lemma bit_length_Bit0: "bit_length (numeral (Num.Bit0 n)) = bit_length (numeral n) + 1"
  by (subst bit_length.simps) simp

lemma bit_length_Bit1: "bit_length (numeral (Num.Bit1 n)) = bit_length (numeral n) + 1"
  by (subst bit_length.simps) simp

lemmas bit_length_numeral =
  bit_length_0 bit_length_Suc0 bit_length_1 bit_length_One bit_length_Bit0 bit_length_Bit1

lemmas float_eval =
  percent_of_def py_truediv_def int_to_double_def round53_def dbl_overflow_def dbl_mul_def
  dbl_trunc_def bit_length_numeral Let_def

lemmas parse_eval =
  parse_pixels_or_percent_def parse_padding_def strip_def lstrip_def rstrip_def py_isspace_def
  fullmatch_percent_def re_digit_def py_isdigit_def py_isdigit_char_def py_int_def
  int_max_str_digits_def

lemma length_strip: "length (strip s) \<le> length s"
proof -
  have "length (dropWhile P xs) \<le> length xs" for P and xs :: string
    by (induction xs) auto
  from this [of py_isspace "rev (dropWhile py_isspace s)"] this [of py_isspace s]
  show ?thesis
    by (simp add: strip_def lstrip_def rstrip_def)
qed

lemma fullmatch_percent_digits:
  assumes "fullmatch_percent v = Some ds"
  shows "ds \<noteq> []" and "list_all re_digit ds" and "length ds \<le> length v"
proof -
  define v1 where "v1 = (case v of [] \<Rightarrow> [] | c # cs \<Rightarrow> if c = CHR ''%'' then cs else v)"
  from assms have ds: "ds = takeWhile re_digit v1" and ne: "takeWhile re_digit v1 \<noteq> []"
    by (auto simp: fullmatch_percent_def v1_def Let_def split: if_splits)
  show "ds \<noteq> []" using ds ne by simp
  show "list_all re_digit ds"
    unfolding ds list_all_iff by (auto dest: set_takeWhileD)
  have "length v1 \<le> length v"
    by (cases v) (auto simp: v1_def)
  moreover have "length (takeWhile re_digit v1) \<le> length v1"
    by (rule length_takeWhile_le)
  ultimately show "length ds \<le> length v" using ds by simp
qed

lemma fullmatch_percent_no_percent:
  assumes "fullmatch_percent v = Some ds" and "CHR ''%'' \<notin> set v"
  shows "v = ds"
proof -
  from assms(2) have v1: "(case v of [] \<Rightarrow> [] | c # cs \<Rightarrow> if c = CHR ''%'' then cs else v) = v"
    by (cases v) auto
  from assms(1) have ds: "ds = takeWhile re_digit v"
    and rest: "dropWhile re_digit v = [] \<or> dropWhile re_digit v = ''%''"
    by (auto simp: fullmatch_percent_def v1 Let_def split: if_splits)
  from rest assms(2) have "dropWhile re_digit v = []"
    by (metis list.set_intros(1) set_dropWhileD)
  then have "takeWhile re_digit v = v"
    by (metis append_Nil2 takeWhile_dropWhile_id)
  with ds show ?thesis by simp
qed

lemma fullmatch_percent_all_digits:
  assumes "v \<noteq> []" and "list_all re_digit v"
  shows "fullmatch_percent v = Some v"
proof -
  from assms have "\<not> re_digit (CHR ''%'') \<Longrightarrow> hd v \<noteq> CHR ''%''"
    by (cases v) auto
  moreover have "\<not> re_digit (CHR ''%'')"
    by (simp add: re_digit_def)
  ultimately have v1: "(case v of [] \<Rightarrow> [] | c # cs \<Rightarrow> if c = CHR ''%'' then cs else v) = v"
    by (cases v) auto
  from assms(2) have tw: "takeWhile re_digit v = v" and dw: "dropWhile re_digit v = []"
    by (simp_all add: list_all_iff)
  show ?thesis
    unfolding fullmatch_percent_def v1 Let_def tw dw using assms(1) by simp
qed

lemma percent_of_not_ValueError: "percent_of b p \<noteq> Inl ValueError"
  by (auto simp: percent_of_def py_truediv_def int_to_double_def Let_def
      split: sum.splits if_splits)

lemma py_int_digits:
  assumes "ds \<noteq> []" and "list_all re_digit ds" and "length ds \<le> 4300"
  shows "py_int ds = Inr (digits_value 0 ds)"
  using assms by (simp add: py_int_def int_max_str_digits_def)

text \<open>
  Claim C4, as amended. The parser applies the grammar \<open>%?\d+%?\<close> to the string with its
  leading and trailing whitespace removed, not to the string itself. For a string of at most
  4300 characters: it raises \<open>ValueError\<close> exactly when the stripped string does not match
  the grammar; a matching string that contains a percent sign is resolved as a percentage of
  the base (which can only fail with \<open>OverflowError\<close>, outside the range of a double), and
  a matching string without percent sign is a digit string, resolved to its value.
\<close>

theorem resolver_grammar_after_strip:
  assumes "length s \<le> 4300"
  shows "(parse_pixels_or_percent s b = Inl ValueError \<longleftrightarrow> fullmatch_percent (strip s) = None)
    \<and> (\<forall>ds. fullmatch_percent (strip s) = Some ds \<longrightarrow>
          parse_pixels_or_percent s b =
            (if CHR ''%'' \<in> set (strip s) then percent_of b (digits_value 0 ds)
             else Inr (int (digits_value 0 (strip s)))))"
proof (cases "fullmatch_percent (strip s)")
  case None
  have "parse_pixels_or_percent s b = Inl ValueError"
  proof (cases "py_isdigit (strip s)")
    case True
    then have "strip s \<noteq> []" by (simp add: py_isdigit_def)
    with None fullmatch_percent_all_digits [of "strip s"]
    have "\<not> list_all re_digit (strip s)" by auto
    then have "py_int (strip s) = Inl ValueError"
      by (simp add: py_int_def)
    with None True show ?thesis
      by (simp add: parse_pixels_or_percent_def)
  next
    case False
    with None show ?thesis
      by (simp add: parse_pixels_or_percent_def)
  qed
  with None show ?thesis by simp
next
  case (Some ds)
  note d = fullmatch_percent_digits [OF Some]
  from d(3) length_strip [of s] assms have len: "length ds \<le> 4300" by simp
  have int_ds: "py_int ds = Inr (digits_value 0 ds)"
    using d(1,2) len by (rule py_int_digits)
  have res: "parse_pixels_or_percent s b =
      (if CHR ''%'' \<in> set (strip s) then percent_of b (digits_value 0 ds)
       else Inr (int (digits_value 0 (strip s))))"
  proof (cases "CHR ''%'' \<in> set (strip s)")
    case True
    with Some int_ds show ?thesis
      by (simp add: parse_pixels_or_percent_def)
  next
    case False
    with Some have eq: "strip s = ds" by (rule fullmatch_percent_no_percent)
    have "py_isdigit ds"
      using d(1,2) by (auto simp: py_isdigit_def list_all_iff re_digit_def py_isdigit_char_def Let_def)
    with False eq int_ds show ?thesis
      by (simp add: parse_pixels_or_percent_def)
  qed
  have "parse_pixels_or_percent s b \<noteq> Inl ValueError"
    unfolding res using percent_of_not_ValueError by simp
  with Some res show ?thesis by simp
qed

theorem resolver_grammar_after_strip_witness:
  "length ''50%'' \<le> 4300 \<and> fullmatch_percent (strip ''50%'') = Some ''50''
   \<and> parse_pixels_or_percent ''50%'' 200 = Inr 100"
proof -
  have len: "length ''50%'' \<le> 4300" by simp
  have m: "fullmatch_percent (strip ''50%'') = Some ''50''"
    by (simp add: parse_eval)
  have "CHR ''%'' \<in> set (strip ''50%'')"
    by (simp add: parse_eval)
  with resolver_grammar_after_strip [OF len, of 200] m
  have "parse_pixels_or_percent ''50%'' 200 = percent_of 200 (digits_value 0 ''50'')"
    by simp
  also have "\<dots> = Inr 100"
    by (simp add: float_eval)
  finally show ?thesis using len m by simp
qed

text \<open>
  The claim as stated fails: \<open>" 50 "\<close> is resolved to 50 although it does not match the
  grammar.
\<close>

theorem resolver_accepts_padded_digits:
  "parse_pixels_or_percent '' 50 '' 100 = Inr 50 \<and> fullmatch_percent '' 50 '' = None"
  by (simp add: parse_eval)

text \<open>
  Claim C2. The percentage is computed in binary floating point and then truncated:
  \<open>29 / 100\<close> is rounded to a double just below 0.29, its product with 100 to the double
  just below 29, and \<open>int\<close> truncates it to 28, where exact integer arithmetic gives
  \<open>floor (100 * 29 / 100) = 29\<close>. The two examples of the specification come out as stated.
\<close>

theorem percent_29_of_100_is_28:
  "parse_pixels_or_percent ''29%'' 100 = Inr 28 \<and> (100 * 29) div 100 = (29 :: int)
   \<and> parse_pixels_or_percent ''101%'' 10 = Inr 10
   \<and> parse_pixels_or_percent ''50%'' 200 = Inr 100"
  by (simp add: parse_eval float_eval)

text \<open>
  The two chains on their own, with the examples of the specification: with band height 200
  and text height 40, middle is \<open>bandTopY + 80\<close>; with image width 1000 and text width
  300, right is 680 and center 350.
\<close>

lemma origin_formulas:
  "origin_y ''top'' bandTopY bandHeightPx textHeight = bandTopY + 10
   \<and> origin_y ''bottom'' bandTopY bandHeightPx textHeight
       = bandTopY + bandHeightPx - textHeight - 10
   \<and> origin_y ''middle'' bandTopY bandHeightPx textHeight
       = bandTopY + (bandHeightPx - textHeight) div 2
   \<and> origin_x ''left'' imageWidthPx textWidth = 20
   \<and> origin_x ''right'' imageWidthPx textWidth = imageWidthPx - textWidth - 20
   \<and> origin_x ''center'' imageWidthPx textWidth = (imageWidthPx - textWidth) div 2
   \<and> origin_y ''middle'' bandTopY 200 40 = bandTopY + 80
   \<and> origin_x ''right'' 1000 300 = 680
   \<and> origin_x ''center'' 1000 300 = 350"
  by (simp add: origin_y_def origin_x_def)

text \<open>
  Claim C10. The dimension parser strips leading and trailing whitespace before it applies
  the grammar: resolving a string padded with one blank on each side gives the result of
  resolving the string itself, for the wrap width and for the padding alike, so that
  \<open>" 50 "\<close> resolves to 50 although it starts and ends with a blank.
\<close>

theorem resolver_ignores_surrounding_blanks:
  "parse_pixels_or_percent ('' '' @ s @ '' '') b = parse_pixels_or_percent s b
   \<and> parse_padding ('' '' @ s @ '' '') b = parse_padding s b
   \<and> parse_pixels_or_percent '' 50 '' b = Inr 50
   \<and> fullmatch_percent '' 50 '' = None \<and> \<not> py_isdigit '' 50 ''"
proof -
  have "strip ('' '' @ s @ '' '') = strip s"
    by (rule strip_pad_space)
  then have "parse_pixels_or_percent ('' '' @ s @ '' '') b = parse_pixels_or_percent s b"
    by (simp add: parse_pixels_or_percent_def)
  moreover have "strip '' 50 '' = ''50''"
    by (simp add: strip_def lstrip_def rstrip_def py_isspace_def)
  then have "parse_pixels_or_percent '' 50 '' b = Inr 50"
    by (simp add: parse_pixels_or_percent_def fullmatch_percent_def py_isdigit_def
        py_isdigit_char_def py_int_def re_digit_def int_max_str_digits_def)
  moreover have "fullmatch_percent '' 50 '' = None"
    by (simp add: fullmatch_percent_def re_digit_def)
  moreover have "\<not> py_isdigit '' 50 ''"
    by (simp add: py_isdigit_def py_isdigit_char_def)
  ultimately show ?thesis
    by (simp add: parse_padding_eq)
qed

section \<open>Properties of the pipeline\<close>

lemma ttf_path_nonempty:
  "(if \<not> endswith font_path ''.ttf'' then font_path @ ''.ttf'' else font_path) \<noteq> []"
  by (auto simp: endswith_def)

lemma process_image_stops:
  assumes "image_open pil input_image = Inr img" and "image_size pil img = (w, h)"
  shows "parse_padding padding h = Inl e \<Longrightarrow>
           process_image pil input_image output_image comment padding bg_color text_color
             font_path font_size align valign wrap_width world = (Inl e, world)"
    and "parse_padding padding h = Inr bp \<Longrightarrow> parse_color (getrgb pil) bg_color = Inl e \<Longrightarrow>
           process_image pil input_image output_image comment padding bg_color text_color
             font_path font_size align valign wrap_width world = (Inl e, world)"
    and "parse_padding padding h = Inr bp \<Longrightarrow> parse_color (getrgb pil) bg_color = Inr c \<Longrightarrow>
         parse_color (getrgb pil) text_color = Inl e \<Longrightarrow>
           process_image pil input_image output_image comment padding bg_color text_color
             font_path font_size align valign wrap_width world = (Inl e, world)"
  using assms by (simp_all add: process_image_def bind_def)

lemma process_image_outcome:
  "(\<exists>e. process_image pil input_image output_image comment padding bg_color text_color
          font_path font_size align valign wrap_width world = (Inl e, world))
   \<or> (\<exists>new_img. process_image pil input_image output_image comment padding bg_color text_color
          font_path font_size align valign wrap_width world =
        (Inr (), world\<lparr>files := (files world)(output_image \<mapsto> new_img),
           stdout := stdout world @ [''[+] Saved output image to: '' @ output_image]\<rparr>))"
  unfolding process_image_def by (auto split: sum.splits option.splits)


lemma process_image_needs_valid:
  assumes "image_open pil input_image = Inr img" and "image_size pil img = (w, h)"
    and "process_image pil input_image output_image comment padding bg_color text_color
           font_path font_size align valign wrap_width world = (Inr u, world')"
  shows "(\<exists>bp. parse_padding padding h = Inr bp)
    \<and> (\<exists>c. parse_color (getrgb pil) bg_color = Inr c)
    \<and> (\<exists>c. parse_color (getrgb pil) text_color = Inr c)"
proof -
  have "\<not> (\<exists>e. parse_padding padding h = Inl e)"
    using assms process_image_stops(1) [OF assms(1,2)] by fastforce
  then obtain bp where bp: "parse_padding padding h = Inr bp"
    by (cases "parse_padding padding h") auto
  have "\<not> (\<exists>e. parse_color (getrgb pil) bg_color = Inl e)"
    using assms(3) process_image_stops(2) [OF assms(1,2) bp] by fastforce
  then obtain c where c: "parse_color (getrgb pil) bg_color = Inr c"
    by (cases "parse_color (getrgb pil) bg_color") auto
  have "\<not> (\<exists>e. parse_color (getrgb pil) text_color = Inl e)"
    using assms(3) process_image_stops(3) [OF assms(1,2) bp c] by fastforce
  then obtain c' where "parse_color (getrgb pil) text_color = Inr c'"
    by (cases "parse_color (getrgb pil) text_color") auto
  with bp c show ?thesis by simp
qed

lemma main_cases:
  "process_image pil (arg_input args) (arg_output args) (arg_comment args)
     (arg_padding args) (arg_bg_color args) (arg_text_color args) (arg_font args)
     (arg_font_size args) (arg_align args) (arg_valign args) (arg_wrap_width args) world
   = (r, world') \<Longrightarrow>
   main pil args world =
     (case r of
        Inr u \<Rightarrow> (0, world')
      | Inl ValueError \<Rightarrow> (2, world'\<lparr>stderr := stderr world' @ [UsageError]\<rparr>)
      | Inl e \<Rightarrow> (1, world'\<lparr>stderr := stderr world' @ [Traceback e]\<rparr>))"
  by (simp add: main_def split: sum.splits error.splits)

text \<open>
  Claim C7. With an input image that opens: when the padding string is invalid, or the
  padding is resolved and one of the two colour strings is invalid (the first of these
  checks that fails raises \<open>ValueError\<close>), the program ends with a usage error on the
  standard error stream and exit status 2, and nothing else has changed: no file is
  written and nothing is printed. Whenever the padding or a colour is invalid, no file is
  written and the exit status is not 0. On success the program has saved the output
  file, has printed the confirmation that names the output path, and ends with status 0.
\<close>

theorem validation_error_leaves_no_output:
  assumes "image_open pil (arg_input args) = Inr img" and "image_size pil img = (w, h)"
  shows "(parse_padding (arg_padding args) h = Inl ValueError
          \<or> (\<exists>bp. parse_padding (arg_padding args) h = Inr bp)
             \<and> (parse_color (getrgb pil) (arg_bg_color args) = Inl ValueError
                \<or> (\<exists>c. parse_color (getrgb pil) (arg_bg_color args) = Inr c)
                   \<and> parse_color (getrgb pil) (arg_text_color args) = Inl ValueError)
          \<longrightarrow> main pil args world = (2, world\<lparr>stderr := stderr world @ [UsageError]\<rparr>))
    \<and> (parse_padding (arg_padding args) h = Inl ValueError
        \<or> parse_color (getrgb pil) (arg_bg_color args) = Inl ValueError
        \<or> parse_color (getrgb pil) (arg_text_color args) = Inl ValueError
        \<longrightarrow> files (snd (main pil args world)) = files world
            \<and> stdout (snd (main pil args world)) = stdout world
            \<and> fst (main pil args world) \<noteq> 0)
    \<and> (\<forall>world'.
          process_image pil (arg_input args) (arg_output args) (arg_comment args)
            (arg_padding args) (arg_bg_color args) (arg_text_color args) (arg_font args)
            (arg_font_size args) (arg_align args) (arg_valign args) (arg_wrap_width args) world
          = (Inr (), world')
          \<longrightarrow> main pil args world = (0, world')
              \<and> stdout world' =
                  stdout world @ [''[+] Saved output image to: '' @ arg_output args]
              \<and> arg_output args \<in> dom (files world'))"
proof (intro conjI impI allI)
  let ?run = "process_image pil (arg_input args) (arg_output args) (arg_comment args)
            (arg_padding args) (arg_bg_color args) (arg_text_color args) (arg_font args)
            (arg_font_size args) (arg_align args) (arg_valign args) (arg_wrap_width args) world"
  {
    assume "parse_padding (arg_padding args) h = Inl ValueError
          \<or> (\<exists>bp. parse_padding (arg_padding args) h = Inr bp)
             \<and> (parse_color (getrgb pil) (arg_bg_color args) = Inl ValueError
                \<or> (\<exists>c. parse_color (getrgb pil) (arg_bg_color args) = Inr c)
                   \<and> parse_color (getrgb pil) (arg_text_color args) = Inl ValueError)"
    then have "?run = (Inl ValueError, world)"
      by (auto intro: process_image_stops [OF assms])
    from main_cases [OF this]
    show "main pil args world = (2, world\<lparr>stderr := stderr world @ [UsageError]\<rparr>)"
      by simp
  }
  {
    assume bad: "parse_padding (arg_padding args) h = Inl ValueError
        \<or> parse_color (getrgb pil) (arg_bg_color args) = Inl ValueError
        \<or> parse_color (getrgb pil) (arg_text_color args) = Inl ValueError"
    have "\<exists>e. ?run = (Inl e, world)"
    proof (rule ccontr)
      assume "\<not> (\<exists>e. ?run = (Inl e, world))"
      with process_image_outcome [of pil "arg_input args" "arg_output args" "arg_comment args"
          "arg_padding args" "arg_bg_color args" "arg_text_color args" "arg_font args"
          "arg_font_size args" "arg_align args" "arg_valign args" "arg_wrap_width args" world]
      obtain world' where "?run = (Inr (), world')" by blast
      from process_image_needs_valid [OF assms this] bad show False by auto
    qed
    then obtain e where "?run = (Inl e, world)" ..
    from main_cases [OF this]
    have m: "main pil args world =
        (case e of ValueError \<Rightarrow> (2, world\<lparr>stderr := stderr world @ [UsageError]\<rparr>)
         | _ \<Rightarrow> (1, world\<lparr>stderr := stderr world @ [Traceback e]\<rparr>))"
      by (simp split: error.splits)
    show "files (snd (main pil args world)) = files world"
      unfolding m by (simp split: error.splits)
    show "stdout (snd (main pil args world)) = stdout world"
      unfolding m by (simp split: error.splits)
    show "fst (main pil args world) \<noteq> 0"
      unfolding m by (simp split: error.splits)
  }
  {
    fix world'
    assume ok: "?run = (Inr (), world')"
    from main_cases [OF this] show "main pil args world = (0, world')" by simp
    from process_image_outcome [of pil "arg_input args" "arg_output args" "arg_comment args"
          "arg_padding args" "arg_bg_color args" "arg_text_color args" "arg_font args"
          "arg_font_size args" "arg_align args" "arg_valign args" "arg_wrap_width args" world] ok
    obtain new_img where w': "world' = world\<lparr>files := (files world)(arg_output args \<mapsto> new_img),
           stdout := stdout world @ [''[+] Saved output image to: '' @ arg_output args]\<rparr>"
      by auto
    show "stdout world' = stdout world @ [''[+] Saved output image to: '' @ arg_output args]"
      by (simp add: w')
    show "arg_output args \<in> dom (files world')"
      by (simp add: w')
  }
qed


lemmas char_class_eval =
  py_isspace_def tw_whitespace_def re_word_def re_letter_def re_digit_def word_punct_def
  is_hyphen_def

lemmas wrap_eval =
  wrap_for_multiline_def tw_fill_def tw_wrap_def tw_split_def munge_whitespace_def
  wrap_line_def handle_long_word_def long_word_end_def rfind_hyphen_def chunk_rest_def
  emdash_ahead_def hyphen_break_def strip_def lstrip_def rstrip_def char_class_eval Let_def

theorem validation_error_leaves_no_output_witness:
  "main stub_pil (stub_args\<lparr>arg_padding := ''-5''\<rparr>) empty_world
     = (2, empty_world\<lparr>stderr := [UsageError]\<rparr>)
   \<and> main stub_pil (stub_args\<lparr>arg_bg_color := ''no colour''\<rparr>) empty_world
     = (2, empty_world\<lparr>stderr := [UsageError]\<rparr>)"
proof -
  have o: "image_open stub_pil (arg_input (stub_args\<lparr>arg_padding := ''-5''\<rparr>)) = Inr 1"
    and o': "image_open stub_pil (arg_input (stub_args\<lparr>arg_bg_color := ''no colour''\<rparr>)) = Inr 1"
    and s: "image_size stub_pil 1 = (400, 300)"
    by (simp_all add: stub_pil_def stub_args_def)
  have p: "parse_padding (arg_padding (stub_args\<lparr>arg_padding := ''-5''\<rparr>)) 300 = Inl ValueError"
    by (simp add: parse_eval)
  have p': "parse_padding (arg_padding (stub_args\<lparr>arg_bg_color := ''no colour''\<rparr>)) 300 = Inr 200"
    by (simp add: stub_args_def parse_eval)
  have c: "parse_color (getrgb stub_pil) (arg_bg_color (stub_args\<lparr>arg_bg_color := ''no colour''\<rparr>))
      = Inl ValueError"
    by (simp add: stub_pil_def parse_color_def strip_def lstrip_def rstrip_def py_isspace_def
        fullmatch_rgb_def fullmatch_hex_def hex_digit_def)
  from validation_error_leaves_no_output [OF o s, of empty_world] p
  have "main stub_pil (stub_args\<lparr>arg_padding := ''-5''\<rparr>) empty_world
     = (2, empty_world\<lparr>stderr := [UsageError]\<rparr>)"
    by (simp add: empty_world_def)
  moreover from validation_error_leaves_no_output [OF o' s, of empty_world] p' c
  have "main stub_pil (stub_args\<lparr>arg_bg_color := ''no colour''\<rparr>) empty_world
     = (2, empty_world\<lparr>stderr := [UsageError]\<rparr>)"
    by (simp add: empty_world_def)
  ultimately show ?thesis by simp
qed

text \<open>
  The end-to-end scenario of the specification, run on the stand-in library: a 400 by 300
  image with padding \<open>25%\<close> and the caption \<open>Hello world\<close> is saved and confirmed.
\<close>

lemma end_to_end_scenario:
  "main stub_pil (stub_args\<lparr>arg_padding := ''25%''\<rparr>) empty_world
     = (0, \<lparr>files = [''out.png'' \<mapsto> 2], stdout = [''[+] Saved output image to: out.png''],
            stderr = []\<rparr>)"
  by (simp add: main_def process_image_def bind_def stub_pil_def stub_args_def empty_world_def
      parse_color_def fullmatch_rgb_def fullmatch_hex_def hex_digit_def load_font_def
      endswith_def parse_eval float_eval wrap_eval origin_x_def origin_y_def)

subsection \<open>Layout origin and font loading in the pipeline\<close>

definition layout_pil :: "(int \<times> int, nat) pil" where
  \<comment> \<open>a stand-in for the imaging library in which an image is the position its text was
      drawn at: the input image is 1000 by 300 pixels and every text measures 300 by 40\<close>
  "layout_pil =
     \<lparr>image_open = (\<lambda>path. Inr (0, 0)),
      image_size = (\<lambda>img. (1000, 300)),
      image_new = (\<lambda>size color. Inr (0, 0)),
      image_paste = (\<lambda>new_img img. new_img),
      image_save = (\<lambda>img path. None),
      getrgb = (\<lambda>s. Inr [0, 0, 0]),
      truetype = (\<lambda>path size. Inl IOError),
      load_default = 0,
      multiline_textbbox = (\<lambda>img text font align. Inr (0, 0, 300, 40)),
      multiline_text = (\<lambda>img xy text fill font align. Inr xy)\<rparr>"

definition strict_truetype :: "string \<Rightarrow> int \<Rightarrow> error + nat" where
  \<comment> \<open>a stand-in for \<open>ImageFont.truetype\<close> on a machine without font files: a size that is
      not positive is refused with \<open>ValueError\<close>, and no file can be opened\<close>
  "strict_truetype font_path font_size = (if font_size \<le> 0 then Inl ValueError else Inl IOError)"

text \<open>
  Claim C5. When the pipeline reaches the layout step, it draws the wrapped caption at the
  origin given by the alignment formulas, and nowhere else: with \<open>bandTopY\<close> the height of
  the input image, \<open>bandHeightPx\<close> the resolved padding, \<open>imageWidthPx\<close> the width of the
  input image and the text box measured on the wrapped caption, \<open>top\<close> gives
  \<open>y = bandTopY + 10\<close>, \<open>bottom\<close> gives \<open>y = bandTopY + bandHeightPx - textHeight - 10\<close> and
  \<open>middle\<close> gives \<open>y = bandTopY + (bandHeightPx - textHeight) div 2\<close>; \<open>left\<close> gives \<open>x = 20\<close>,
  \<open>right\<close> gives \<open>x = imageWidthPx - textWidth - 20\<close> and \<open>center\<close> gives
  \<open>x = (imageWidthPx - textWidth) div 2\<close>. What the pipeline saves is the image drawn at
  that origin.
\<close>

theorem text_is_drawn_at_layout_origin:
  assumes "image_open pil input_image = Inr img"
    and "image_size pil img = (imageWidthPx, bandTopY)"
    and "parse_padding padding bandTopY = Inr bandHeightPx"
    and "parse_color (getrgb pil) bg_color = Inr bg_rgb"
    and "parse_color (getrgb pil) text_color = Inr text_rgb"
    and "image_new pil (imageWidthPx, bandTopY + bandHeightPx) bg_rgb = Inr canvas"
    and "load_font (truetype pil) (load_default pil) font_path font_size = Inr font"
    and "parse_pixels_or_percent wrap_width imageWidthPx = Inr wrapWidthPx"
    and "wrap_for_multiline (image_paste pil canvas img) caption font wrapWidthPx = Inr wrapped"
    and "multiline_textbbox pil (image_paste pil canvas img) wrapped font align
           = Inr (box_left, box_top, box_right, box_bottom)"
  shows "process_image pil input_image output_image caption padding bg_color text_color
           font_path font_size align valign wrap_width world =
     (let textWidth = box_right - box_left;
          textHeight = box_bottom - box_top;
          y = (if valign = ''top'' then bandTopY + 10
               else if valign = ''bottom'' then bandTopY + bandHeightPx - textHeight - 10
               else bandTopY + (bandHeightPx - textHeight) div 2);
          x = (if align = ''left'' then 20
               else if align = ''right'' then imageWidthPx - textWidth - 20
               else (imageWidthPx - textWidth) div 2)
      in case multiline_text pil (image_paste pil canvas img) (x, y) wrapped text_rgb font align of
           Inl e \<Rightarrow> (Inl e, world)
         | Inr drawn \<Rightarrow>
             (case image_save pil drawn output_image of
                Some e \<Rightarrow> (Inl e, world)
              | None \<Rightarrow>
                  (Inr (),
                   world\<lparr>files := (files world)(output_image \<mapsto> drawn),
                         stdout := stdout world
                           @ [''[+] Saved output image to: '' @ output_image]\<rparr>)))"
  using assms
  by (simp add: process_image_def bind_def origin_x_def origin_y_def Let_def)

theorem text_is_drawn_at_layout_origin_witness:
  "process_image layout_pil ''in.png'' ''out.png'' ''Hello world'' ''200'' ''black'' ''white''
       ''arial'' 16 ''right'' ''middle'' ''90%'' \<lparr>files = Map.empty, stdout = [], stderr = []\<rparr>
     = (Inr (), \<lparr>files = [''out.png'' \<mapsto> (680, 380)],
                 stdout = [''[+] Saved output image to: out.png''], stderr = []\<rparr>)"
proof -
  have h1: "image_open layout_pil ''in.png'' = Inr (0, 0)"
    and h2: "image_size layout_pil (0, 0) = (1000, 300)"
    and h6: "image_new layout_pil (1000, 300 + 200) [0, 0, 0] = Inr (0, 0)"
    and h10: "multiline_textbbox layout_pil (image_paste layout_pil (0, 0) (0, 0))
        ''Hello world'' 0 ''right'' = Inr (0, 0, 300, 40)"
    by (simp_all add: layout_pil_def)
  have h3: "parse_padding ''200'' 300 = Inr 200"
    by (simp add: parse_eval)
  have h4: "parse_color (getrgb layout_pil) ''black'' = Inr [0, 0, 0]"
    and h5: "parse_color (getrgb layout_pil) ''white'' = Inr [0, 0, 0]"
    by (simp_all add: layout_pil_def parse_color_def strip_def lstrip_def rstrip_def
        py_isspace_def fullmatch_rgb_def fullmatch_hex_def hex_digit_def)
  have h7: "load_font (truetype layout_pil) (load_default layout_pil) ''arial'' 16 = Inr 0"
    by (simp add: layout_pil_def load_font_def endswith_def)
  have h8: "parse_pixels_or_percent ''90%'' 1000 = Inr 900"
    by (simp add: parse_eval float_eval)
  have h9: "wrap_for_multiline (image_paste layout_pil (0, 0) (0, 0)) ''Hello world'' 0 900
      = Inr ''Hello world''"
    by (simp add: wrap_eval)
  from text_is_drawn_at_layout_origin [OF h1 h2 h3 h4 h5 h6 h7 h8 h9 h10,
      of "''out.png''" "''middle''" "\<lparr>files = Map.empty, stdout = [], stderr = []\<rparr>"]
  show ?thesis
    by (simp add: layout_pil_def)
qed

text \<open>
  Claim C9, as amended. When the font file (the given path, with \<open>.ttf\<close> appended unless it
  already ends so) cannot be opened, that is when the font library raises \<open>IOError\<close>,
  \<open>load_font\<close> returns the built-in default font, whatever the font name and size; it
  never raises \<open>IOError\<close> itself. A font that opens is returned. An error of another class
  raised by the font library is not caught.
\<close>

theorem load_font_recovers_from_io_error:
  "(open_font (if endswith font_path ''.ttf'' then font_path else font_path @ ''.ttf'')
         font_size = Inl IOError
      \<longrightarrow> load_font open_font dflt font_path font_size = Inr dflt)
   \<and> load_font open_font dflt font_path font_size \<noteq> Inl IOError
   \<and> (\<forall>f. open_font (if endswith font_path ''.ttf'' then font_path else font_path @ ''.ttf'')
             font_size = Inr f
          \<longrightarrow> load_font open_font dflt font_path font_size = Inr f)
   \<and> (\<forall>e. e \<noteq> IOError
          \<and> open_font (if endswith font_path ''.ttf'' then font_path else font_path @ ''.ttf'')
               font_size = Inl e
          \<longrightarrow> load_font open_font dflt font_path font_size = Inl e)"
proof -
  define p where "p = (if \<not> endswith font_path ''.ttf'' then font_path @ ''.ttf'' else font_path)"
  have ne: "p \<noteq> []" unfolding p_def by (rule ttf_path_nonempty)
  have p': "(if endswith font_path ''.ttf'' then font_path else font_path @ ''.ttf'') = p"
    by (simp add: p_def)
  have lf: "load_font open_font dflt font_path font_size =
      (case open_font p font_size of Inl IOError \<Rightarrow> Inr dflt | Inl e \<Rightarrow> Inl e | Inr f \<Rightarrow> Inr f)"
    using ne by (simp add: load_font_def p_def [symmetric] Let_def)
  show ?thesis
    unfolding lf p' by (auto split: sum.splits error.splits)
qed

theorem load_font_recovers_from_io_error_witness:
  "load_font (\<lambda>p s. Inl IOError) (0 :: nat) ''arial'' 16 = Inr 0
   \<and> load_font (\<lambda>p s. if p = ''arial.ttf'' then Inr 7 else Inl IOError) (0 :: nat) ''arial'' 16
       = Inr 7
   \<and> load_font (\<lambda>p s. Inl OverflowError) (0 :: nat) ''arial'' 16 = Inl OverflowError"
proof -
  have "load_font (\<lambda>p s. Inl IOError) (0 :: nat) ''arial'' 16 = Inr 0"
    using load_font_recovers_from_io_error [of "\<lambda>p s. Inl IOError" "''arial''" 16 "0 :: nat"]
    by simp
  moreover have
    "load_font (\<lambda>p s. if p = ''arial.ttf'' then Inr 7 else Inl IOError) (0 :: nat) ''arial'' 16
       = Inr 7"
    using load_font_recovers_from_io_error
      [of "\<lambda>p s. if p = ''arial.ttf'' then Inr 7 else Inl IOError" "''arial''" 16 "0 :: nat"]
    by (simp add: endswith_def)
  moreover have "load_font (\<lambda>p s. Inl OverflowError) (0 :: nat) ''arial'' 16 = Inl OverflowError"
    using load_font_recovers_from_io_error [of "\<lambda>p s. Inl OverflowError" "''arial''" 16 "0 :: nat"]
    by simp
  ultimately show ?thesis by simp
qed

text \<open>
  The claim as stated fails for the font size: the font library refuses a size of 0 with
  \<open>ValueError\<close>, which \<open>load_font\<close> does not catch, and the program ends with a usage error
  and no output.
\<close>

theorem load_font_surfaces_value_error:
  "load_font strict_truetype 0 ''arial'' 0 = Inl ValueError
   \<and> main (stub_pil\<lparr>truetype := strict_truetype\<rparr>) (stub_args\<lparr>arg_font_size := 0\<rparr>) empty_world
       = (2, empty_world\<lparr>stderr := [UsageError]\<rparr>)
   \<and> main (stub_pil\<lparr>truetype := strict_truetype\<rparr>) stub_args empty_world
       = (0, \<lparr>files = [''out.png'' \<mapsto> 2], stdout = [''[+] Saved output image to: out.png''],
              stderr = []\<rparr>)"
proof -
  have "load_font strict_truetype 0 ''arial'' 0 = Inl ValueError"
    by (simp add: load_font_def strict_truetype_def endswith_def)
  moreover have "main (stub_pil\<lparr>truetype := strict_truetype\<rparr>) (stub_args\<lparr>arg_font_size := 0\<rparr>)
      empty_world = (2, empty_world\<lparr>stderr := [UsageError]\<rparr>)"
    by (simp add: main_def process_image_def bind_def stub_pil_def stub_args_def empty_world_def
      parse_color_def fullmatch_rgb_def fullmatch_hex_def hex_digit_def load_font_def
      strict_truetype_def endswith_def parse_eval float_eval)
  moreover have "main (stub_pil\<lparr>truetype := strict_truetype\<rparr>) stub_args empty_world
       = (0, \<lparr>files = [''out.png'' \<mapsto> 2], stdout = [''[+] Saved output image to: out.png''],
              stderr = []\<rparr>)"
    by (simp add: main_def process_image_def bind_def stub_pil_def stub_args_def empty_world_def
      parse_color_def fullmatch_rgb_def fullmatch_hex_def hex_digit_def load_font_def
      strict_truetype_def endswith_def parse_eval float_eval wrap_eval origin_x_def origin_y_def)
  ultimately show ?thesis by simp
qed


section \<open>Properties of the text wrap\<close>

subsection \<open>Splitting and joining\<close>

lemma split_on_not_Nil [simp]: "split_on sep s \<noteq> []"
  by (induction s) (auto split: list.splits)

lemma split_on_no_sep: "sep \<notin> set s \<Longrightarrow> split_on sep s = [s]"
  by (induction s) auto

lemma split_on_append:
  "split_on sep (a @ sep # b) = split_on sep a @ split_on sep b"
  by (induction a) (auto split: list.splits)

lemma join_Cons: "xs \<noteq> [] \<Longrightarrow> join sep (x # xs) = x @ sep @ join sep xs"
  by (cases xs) auto

lemma join_append:
  "xs \<noteq> [] \<Longrightarrow> ys \<noteq> [] \<Longrightarrow> join sep (xs @ ys) = join sep xs @ sep @ join sep ys"
proof (induction xs)
  case Nil
  then show ?case by simp
next
  case (Cons x xs)
  show ?case
  proof (cases "xs = []")
    case True
    with Cons.prems show ?thesis by (simp add: join_Cons)
  next
    case False
    with Cons show ?thesis by (simp add: join_Cons)
  qed
qed

lemma join_split_on: "join [sep] (split_on sep s) = s"
proof (induction s)
  case Nil
  show ?case by simp
next
  case (Cons c s)
  show ?case
  proof (cases "c = sep")
    case True
    with Cons show ?thesis by (simp add: join_Cons)
  next
    case False
    obtain p ps where ps: "split_on sep s = p # ps"
      by (cases "split_on sep s") auto
    with Cons have "join [sep] (p # ps) = s" by simp
    then have "join [sep] ((c # p) # ps) = c # s"
      by (cases ps) auto
    with False ps show ?thesis by simp
  qed
qed

lemma split_on_join:
  "xs \<noteq> [] \<Longrightarrow> split_on sep (join [sep] xs) = concat (map (split_on sep) xs)"
proof (induction xs)
  case Nil
  then show ?case by simp
next
  case (Cons x xs)
  show ?case
  proof (cases "xs = []")
    case True
    then show ?thesis by simp
  next
    case False
    with Cons have "split_on sep (join [sep] xs) = concat (map (split_on sep) xs)" by simp
    with False split_on_append [of sep x "join [sep] xs"] show ?thesis
      by (simp add: join_Cons)
  qed
qed

lemma split_on_join_lines:
  assumes "xs \<noteq> []" and "\<forall>x \<in> set xs. sep \<notin> set x"
  shows "split_on sep (join [sep] xs) = xs"
proof -
  from assms(2) have "concat (map (split_on sep) xs) = xs"
    by (induction xs) (simp_all add: split_on_no_sep)
  with assms(1) show ?thesis by (simp add: split_on_join)
qed

lemma join_concat_split_on:
  "xs \<noteq> [] \<Longrightarrow> join [sep] (concat (map (split_on sep) xs)) = join [sep] xs"
proof (induction xs)
  case Nil
  then show ?case by simp
next
  case (Cons x xs)
  show ?case
  proof (cases "xs = []")
    case True
    then show ?thesis by (simp add: join_split_on)
  next
    case False
    then have ne: "concat (map (split_on sep) xs) \<noteq> []"
      by (cases xs) auto
    have "join [sep] (split_on sep x @ concat (map (split_on sep) xs))
        = join [sep] (split_on sep x) @ [sep] @ join [sep] (concat (map (split_on sep) xs))"
      by (rule join_append) (use ne in simp_all)
    with Cons False show ?thesis by (simp add: join_split_on join_Cons)
  qed
qed

subsection \<open>One line of \<open>_wrap_chunks\<close>\<close>

lemma take_fitting_length:
  "take_fitting width n cs = (line, rest) \<Longrightarrow> n \<le> width
    \<Longrightarrow> n + sum_list (map length line) \<le> width"
proof (induction cs arbitrary: n line rest)
  case Nil
  then show ?case by simp
next
  case (Cons c cs)
  show ?case
  proof (cases "n + length c \<le> width")
    case True
    obtain l r where tf: "take_fitting width (n + length c) cs = (l, r)"
      by (cases "take_fitting width (n + length c) cs")
    from Cons.IH [OF tf True] have "n + length c + sum_list (map length l) \<le> width" .
    moreover from Cons.prems(1) True tf have "line = c # l" by simp
    ultimately show ?thesis by simp
  next
    case False
    with Cons.prems show ?thesis by simp
  qed
qed

lemma take_fitting_all:
  "n + sum_list (map length cs) \<le> width \<Longrightarrow> take_fitting width n cs = (cs, [])"
  by (induction cs arbitrary: n) auto

lemma long_word_end_le: "long_word_end c n \<le> n"
proof -
  have "h < n" if "rfind_hyphen c n = Some h" for h
  proof -
    define pre where "pre = take n c"
    define a where "a = length (takeWhile (\<lambda>c. \<not> is_hyphen c) (rev pre))"
    from that have ne: "a \<noteq> length pre" and h: "h = length pre - 1 - a"
      by (auto simp: rfind_hyphen_def Let_def pre_def a_def split: if_splits)
    have "a \<le> length pre"
      unfolding a_def using length_takeWhile_le [of _ "rev pre"] by simp
    with ne have "a < length pre" by simp
    with h have "h < length pre" by simp
    also have "length pre \<le> n" by (simp add: pre_def)
    finally show ?thesis .
  qed
  then have "rfind_hyphen c n = Some h \<Longrightarrow> Suc h \<le> n" for h
    by fastforce
  then show ?thesis
    by (auto simp: long_word_end_def split: option.splits)
qed

definition drop_blank :: "string list \<Rightarrow> string list" where
  "drop_blank cur_line =
     (if cur_line \<noteq> [] \<and> strip (last cur_line) = [] then butlast cur_line else cur_line)"

lemma wrap_line_eq:
  assumes "take_fitting n 0 (if strip (hd chunks) = [] \<and> st then tl chunks else chunks) = (l, r)"
  shows "wrap_line n chunks st =
     (if r \<noteq> [] \<and> n < length (hd r) then
        (drop (long_word_end (hd r) (if n < 1 then 1 else n - sum_list (map length l))) (hd r)
           # tl r,
         drop_blank
           (l @ [take (long_word_end (hd r) (if n < 1 then 1 else n - sum_list (map length l)))
                   (hd r)]))
      else (r, drop_blank l))"
  using assms by (simp add: wrap_line_def handle_long_word_def drop_blank_def Let_def)

lemma drop_blank_prefix: "\<exists>q. cur = drop_blank cur @ q"
  by (cases cur rule: rev_cases) (auto simp: drop_blank_def)

lemma wrap_line_pieces:
  assumes "wrap_line n chunks st = (chunks', cur_line)" and "chunks \<noteq> []"
  shows "\<exists>p q. concat chunks = p @ concat cur_line @ q @ concat chunks'"
proof -
  define chunks1 where "chunks1 = (if strip (hd chunks) = [] \<and> st then tl chunks else chunks)"
  obtain l r where tf: "take_fitting n 0 chunks1 = (l, r)"
    by (cases "take_fitting n 0 chunks1")
  have app: "chunks1 = l @ r" using tf by (rule take_fitting_append)
  have "\<exists>p. concat chunks = p @ concat chunks1"
  proof (cases "strip (hd chunks) = [] \<and> st")
    case True
    with assms(2) have "concat chunks = hd chunks @ concat chunks1"
      by (cases chunks) (simp_all add: chunks1_def)
    then show ?thesis ..
  next
    case False
    then have "chunks1 = chunks"
      by (auto simp: chunks1_def)
    then have "concat chunks = [] @ concat chunks1"
      by simp
    then show ?thesis ..
  qed
  then obtain p where p: "concat chunks = p @ concat chunks1" ..
  note eq = wrap_line_eq [OF tf [unfolded chunks1_def], of ]
  show ?thesis
  proof (cases "r \<noteq> [] \<and> n < length (hd r)")
    case True
    define e where "e = long_word_end (hd r) (if n < 1 then 1 else n - sum_list (map length l))"
    from True obtain c r' where r: "r = c # r'" by (cases r) auto
    from eq True assms(1) have c': "chunks' = drop e c # r'"
      and cl: "cur_line = drop_blank (l @ [take e c])"
      by (simp_all add: e_def r)
    obtain q where q: "l @ [take e c] = cur_line @ q"
      using drop_blank_prefix [of "l @ [take e c]"] cl by auto
    have "concat chunks1 = concat (l @ [take e c]) @ concat chunks'"
      by (simp add: app r c')
    also have "\<dots> = concat cur_line @ concat q @ concat chunks'"
      by (simp add: q)
    finally show ?thesis using p by auto
  next
    case False
    from eq False assms(1) have c': "chunks' = r" and cl: "cur_line = drop_blank l"
      by auto
    obtain q where q: "l = cur_line @ q"
      using drop_blank_prefix [of l] cl by auto
    have "concat chunks1 = concat cur_line @ concat q @ concat chunks'"
      by (simp add: app c' q)
    then show ?thesis using p by auto
  qed
qed

lemma sum_list_length_concat: "sum_list (map length xs) = length (concat xs)"
  by (induction xs) auto

lemma drop_blank_length: "length (concat (drop_blank cur)) \<le> length (concat cur)"
  using drop_blank_prefix [of cur] by (metis concat_append le_add1 length_append)

lemma wrap_line_length:
  assumes "wrap_line n chunks st = (chunks', cur_line)" and "1 \<le> n"
  shows "length (concat cur_line) \<le> n"
proof -
  define chunks1 where "chunks1 = (if strip (hd chunks) = [] \<and> st then tl chunks else chunks)"
  obtain l r where tf: "take_fitting n 0 chunks1 = (l, r)"
    by (cases "take_fitting n 0 chunks1")
  from take_fitting_length [OF tf] have len: "length (concat l) \<le> n"
    by (simp add: sum_list_length_concat)
  note eq = wrap_line_eq [OF tf [unfolded chunks1_def], of ]
  show ?thesis
  proof (cases "r \<noteq> [] \<and> n < length (hd r)")
    case True
    define e where "e = long_word_end (hd r) (if n < 1 then 1 else n - sum_list (map length l))"
    from eq True assms(1) have cl: "cur_line = drop_blank (l @ [take e (hd r)])"
      by (simp add: e_def)
    have "e \<le> n - length (concat l)"
      unfolding e_def using long_word_end_le [of "hd r" "n - sum_list (map length l)"] assms(2)
      by (simp add: sum_list_length_concat)
    then have "length (concat (l @ [take e (hd r)])) \<le> n"
      using len by simp
    with drop_blank_length [of "l @ [take e (hd r)]"] show ?thesis
      unfolding cl by linarith
  next
    case False
    from eq False assms(1) have cl: "cur_line = drop_blank l" by auto
    with drop_blank_length [of l] len show ?thesis by simp
  qed
qed

subsection \<open>All lines of \<open>_wrap_chunks\<close>\<close>

lemma wrap_loop_lines:
  assumes "1 \<le> n" and "line \<in> set (wrap_loop n chunks lines)"
  shows "line \<in> set lines \<or> (length line \<le> n \<and> sublist line (concat chunks))"
  using assms
proof (induction n chunks lines rule: wrap_loop.induct)
  case (1 width lines)
  then show ?case by simp
next
  case (2 width c cs lines)
  obtain chunks' cur_line where wl: "wrap_line width (c # cs) (lines \<noteq> []) = (chunks', cur_line)"
    by (cases "wrap_line width (c # cs) (lines \<noteq> [])")
  from wrap_line_pieces [OF wl] obtain p q
    where pieces: "concat (c # cs) = p @ concat cur_line @ q @ concat chunks'" by auto
  from wrap_line_length [OF wl "2.prems"(1)] have len: "length (concat cur_line) \<le> width" .
  from "2.prems"(2) wl
  have "line \<in> set (wrap_loop width chunks'
          (if cur_line \<noteq> [] then lines @ [concat cur_line] else lines))"
    by simp
  from "2.IH" [OF wl [symmetric] "2.prems"(1) this]
  have "line \<in> set (if cur_line \<noteq> [] then lines @ [concat cur_line] else lines)
      \<or> (length line \<le> width \<and> sublist line (concat chunks'))" .
  then consider "line \<in> set lines" | "line = concat cur_line"
    | "length line \<le> width" "sublist line (concat chunks')"
    by (auto split: if_splits)
  then show ?case
  proof cases
    case 1
    then show ?thesis by simp
  next
    case 2
    have "sublist (concat cur_line) (p @ concat cur_line @ q @ concat chunks')"
      by (metis sublist_appendI)
    with 2 len pieces show ?thesis by simp
  next
    case 3
    have "sublist (concat chunks') (concat (c # cs))"
      unfolding pieces by (metis append.assoc sublist_appendI append_Nil2)
    with 3 show ?thesis using sublist_order.order_trans by blast
  qed
qed

subsection \<open>Chunks and paragraphs\<close>

lemma concat_split_from: "concat (split_from b text) = text"
  by (induction b "text" rule: split_from.induct) simp_all

lemma concat_tw_split: "concat (tw_split text) = text"
  by (simp add: tw_split_def concat_split_from)

lemma tw_whitespace_space [simp]: "tw_whitespace (CHR '' '')"
  by (simp add: tw_whitespace_def)

lemma tw_whitespace_newline [simp]: "tw_whitespace (CHR 0x0A)"
  by (simp add: tw_whitespace_def)

lemma munge_whitespace_chars:
  "x \<in> set (munge_whitespace text) \<Longrightarrow> x = CHR '' '' \<or> \<not> tw_whitespace x"
  by (auto simp: munge_whitespace_def)

lemma newline_not_in_munge: "CHR 0x0A \<notin> set (munge_whitespace text)"
  using munge_whitespace_chars [of "CHR 0x0A" "text"] by auto

definition wrap_paragraph :: "nat \<Rightarrow> string \<Rightarrow> string list" where
  "wrap_paragraph n paragraph = wrap_loop n (tw_split (munge_whitespace paragraph)) []"

lemma tw_fill_wrap_paragraph:
  "0 < w \<Longrightarrow> tw_fill paragraph w = Inr (join [CHR 0x0A] (wrap_paragraph (nat w) paragraph))"
  by (simp add: tw_fill_def tw_wrap_def wrap_paragraph_def)

lemma wrap_paragraph_lines:
  assumes "1 \<le> n" and "line \<in> set (wrap_paragraph n paragraph)"
  shows "length line \<le> n" and "sublist line (munge_whitespace paragraph)"
    and "CHR 0x0A \<notin> set line"
proof -
  from wrap_loop_lines [OF assms(1) assms(2) [unfolded wrap_paragraph_def]]
  show "length line \<le> n" and sub: "sublist line (munge_whitespace paragraph)"
    by (simp_all add: concat_tw_split)
  from sub have "set line \<subseteq> set (munge_whitespace paragraph)"
    by (rule set_mono_sublist)
  with newline_not_in_munge show "CHR 0x0A \<notin> set line" by auto
qed

definition wrapped_block :: "nat \<Rightarrow> string \<Rightarrow> string" where
  "wrapped_block n paragraph =
     (if strip paragraph = [] then [] else join [CHR 0x0A] (wrap_paragraph n paragraph))"

lemma wrapped_blocks_map:
  "0 < w \<Longrightarrow> wrapped_blocks w paragraphs = Inr (map (wrapped_block (nat w)) paragraphs)"
  by (induction paragraphs) (simp_all add: wrapped_block_def tw_fill_wrap_paragraph)

lemma wrap_for_multiline_blocks:
  "5 \<le> max_width \<Longrightarrow>
   wrap_for_multiline draw text font max_width =
     Inr (join [CHR 0x0A] (map (wrapped_block (nat (max_width div 5)))
            (split_on (CHR 0x0A) (replace_escaped_newlines text))))"
  by (simp add: wrap_for_multiline_def wrapped_blocks_map Let_def)

lemma split_on_wrapped_block:
  assumes "1 \<le> n" and "line \<in> set (split_on (CHR 0x0A) (wrapped_block n paragraph))"
  shows "line = [] \<or> line \<in> set (wrap_paragraph n paragraph)"
proof (cases "strip paragraph = [] \<or> wrap_paragraph n paragraph = []")
  case True
  then have "wrapped_block n paragraph = []"
    by (auto simp: wrapped_block_def)
  with assms(2) show ?thesis by simp
next
  case False
  then have "split_on (CHR 0x0A) (wrapped_block n paragraph) = wrap_paragraph n paragraph"
    using wrap_paragraph_lines(3) [OF assms(1)]
    by (auto simp: wrapped_block_def intro!: split_on_join_lines)
  with assms(2) show ?thesis by simp
qed

text \<open>
  Claim C3, as amended. For every caption and every wrap width of at least 5 pixels the wrap
  step returns a wrapped block and raises nothing, and no line of the block has more than
  \<open>wrapWidthPx div 5\<close> characters: a longer word is broken across lines. The empty caption
  gives the empty block (one empty line) for every wrap width.
\<close>

theorem wrap_returns_from_width_five:
  "(5 \<le> max_width \<longrightarrow>
      (\<exists>wrapped. wrap_for_multiline draw text font max_width = Inr wrapped
         \<and> (\<forall>line \<in> set (split_on (CHR 0x0A) wrapped). int (length line) \<le> max_width div 5)))
   \<and> wrap_for_multiline draw [] font max_width = Inr []"
proof (intro conjI impI)
  assume w: "5 \<le> max_width"
  define n where "n = nat (max_width div 5)"
  from w have n: "1 \<le> n" and n': "int n = max_width div 5"
    by (simp_all add: n_def)
  define blocks where
    "blocks = map (wrapped_block n) (split_on (CHR 0x0A) (replace_escaped_newlines text))"
  have ne: "blocks \<noteq> []" by (simp add: blocks_def)
  have res: "wrap_for_multiline draw text font max_width = Inr (join [CHR 0x0A] blocks)"
    using w by (simp add: wrap_for_multiline_blocks blocks_def n_def)
  have "length line \<le> n" if "line \<in> set (split_on (CHR 0x0A) (join [CHR 0x0A] blocks))" for line
  proof -
    from that ne obtain b where "b \<in> set blocks" and "line \<in> set (split_on (CHR 0x0A) b)"
      by (auto simp: split_on_join)
    then obtain p where "line \<in> set (split_on (CHR 0x0A) (wrapped_block n p))"
      by (auto simp: blocks_def)
    from split_on_wrapped_block [OF n this] wrap_paragraph_lines(1) [OF n]
    show ?thesis by auto
  qed
  with res n' show "\<exists>wrapped. wrap_for_multiline draw text font max_width = Inr wrapped
         \<and> (\<forall>line \<in> set (split_on (CHR 0x0A) wrapped). int (length line) \<le> max_width div 5)"
    by fastforce
next
  show "wrap_for_multiline draw [] font max_width = Inr []"
    by (simp add: wrap_for_multiline_def strip_def lstrip_def rstrip_def)
qed

theorem wrap_returns_from_width_five_witness:
  "wrap_for_multiline () ''abcdefghij klm'' () 25
     = Inr (''abcde'' @ [CHR 0x0A] @ ''fghij'' @ [CHR 0x0A] @ ''klm'')
   \<and> map length [''abcde'', ''fghij'', ''klm''] = [5, 5, 3]"
proof -
  have r: "wrap_for_multiline () ''abcdefghij klm'' () 25
     = Inr (''abcde'' @ [CHR 0x0A] @ ''fghij'' @ [CHR 0x0A] @ ''klm'')"
    by (simp add: wrap_eval)
  have s: "split_on (CHR 0x0A) (''abcde'' @ [CHR 0x0A] @ ''fghij'' @ [CHR 0x0A] @ ''klm'')
      = [''abcde'', ''fghij'', ''klm'']"
    by simp
  from wrap_returns_from_width_five [of 25 "()" "''abcdefghij klm''" "()"] r s
  show ?thesis by simp
qed

text \<open>
  The claim as stated fails for a wrap width below 5 pixels, where the character width is
  0 and \<open>textwrap.fill\<close> raises \<open>ValueError\<close>, and for its unsplit words: a word of ten
  characters is broken at a wrap width of 25 pixels.
\<close>

theorem wrap_raises_below_width_five:
  "wrap_for_multiline () ''hi'' () 4 = Inl ValueError
   \<and> wrap_for_multiline () ''abcdefghij'' () 25 = Inr (''abcde'' @ [CHR 0x0A] @ ''fghij'')"
  by (simp add: wrap_eval)

subsection \<open>Escaped newlines\<close>

fun has_escape :: "string \<Rightarrow> bool" where
  "has_escape (a # b # cs) = ((a = CHR 0x5C \<and> b = CHR ''n'') \<or> has_escape (b # cs))"
| "has_escape cs = False"

lemma has_escape_sublist: "has_escape s \<longleftrightarrow> sublist [CHR 0x5C, CHR ''n''] s"
  by (induction s rule: has_escape.induct) (auto simp: sublist_Cons_right prefix_Cons)

lemma replace_escaped_newlines_first:
  "replace_escaped_newlines (b # cs) = x # xs \<Longrightarrow> x = b \<or> x = CHR 0x0A"
  by (cases cs) (auto split: if_splits)

lemma replace_escaped_newlines_Cons: "replace_escaped_newlines (b # cs) \<noteq> []"
  by (cases cs) auto

lemma no_escape_after_replace: "\<not> has_escape (replace_escaped_newlines s)"
proof (induction s rule: replace_escaped_newlines.induct)
  case (1 a b cs)
  show ?case
  proof (cases "a = CHR 0x5C \<and> b = CHR ''n''")
    case True
    with 1 show ?thesis by (cases "replace_escaped_newlines cs") auto
  next
    case False
    obtain x xs where r: "replace_escaped_newlines (b # cs) = x # xs"
      using replace_escaped_newlines_Cons [of b cs] by (cases "replace_escaped_newlines (b # cs)") auto
    from replace_escaped_newlines_first [OF r] have "x = b \<or> x = CHR 0x0A" .
    with False 1 r show ?thesis by auto
  qed
qed simp_all

lemma replace_escaped_newlines_id: "\<not> has_escape s \<Longrightarrow> replace_escaped_newlines s = s"
  by (induction s rule: replace_escaped_newlines.induct) auto

lemma replace_escaped_newlines_append:
  "\<not> has_escape a \<Longrightarrow>
   replace_escaped_newlines (a @ CHR 0x5C # CHR ''n'' # b) = a @ CHR 0x0A # replace_escaped_newlines b"
  by (induction a rule: has_escape.induct) auto

lemma wrapped_block_blank [simp]: "strip p = [] \<Longrightarrow> wrapped_block n p = []"
  by (simp add: wrapped_block_def)

lemma strip_Nil [simp]: "strip [] = []"
  by (simp add: strip_def lstrip_def rstrip_def)

text \<open>
  Claim C6. The layout engine turns every two-character escape \<open>\n\<close> of the caption into a
  line feed (none is left, each one found from the left becomes a line feed, and a caption
  without one is unchanged), splits the result on line feeds into paragraphs, and wraps
  each paragraph on its own: there is one block per paragraph, the block of a blank
  paragraph is the empty line and the block of any other paragraph is its own fill.
  The caption \<open>line1\<close>, two line feeds, \<open>line2\<close> gives three blocks, the middle one empty.
  The wrap width is at least 5 pixels.
\<close>

theorem escapes_become_paragraph_breaks:
  "\<not> sublist [CHR 0x5C, CHR ''n''] (replace_escaped_newlines text)
   \<and> (\<not> sublist [CHR 0x5C, CHR ''n''] a \<longrightarrow>
        replace_escaped_newlines (a @ [CHR 0x5C, CHR ''n''] @ b)
          = a @ CHR 0x0A # replace_escaped_newlines b)
   \<and> (\<not> sublist [CHR 0x5C, CHR ''n''] text \<longrightarrow> replace_escaped_newlines text = text)
   \<and> (5 \<le> max_width \<longrightarrow>
        (\<exists>blocks.
           wrapped_blocks (max_width div 5) (split_on (CHR 0x0A) (replace_escaped_newlines text))
             = Inr blocks
           \<and> wrap_for_multiline draw text font max_width = Inr (join [CHR 0x0A] blocks)
           \<and> length blocks = length (split_on (CHR 0x0A) (replace_escaped_newlines text))
           \<and> (\<forall>i < length blocks.
                (strip (split_on (CHR 0x0A) (replace_escaped_newlines text) ! i) = []
                   \<longrightarrow> blocks ! i = [])
                \<and> (strip (split_on (CHR 0x0A) (replace_escaped_newlines text) ! i) \<noteq> []
                   \<longrightarrow> tw_fill (split_on (CHR 0x0A) (replace_escaped_newlines text) ! i)
                         (max_width div 5) = Inr (blocks ! i)))))
   \<and> (5 \<le> max_width \<longrightarrow>
        (\<exists>b1 b3.
           wrapped_blocks (max_width div 5)
             (split_on (CHR 0x0A)
                (replace_escaped_newlines (''line1'' @ [CHR 0x0A, CHR 0x0A] @ ''line2'')))
             = Inr [b1, [], b3]))"
proof (intro conjI impI)
  show "\<not> sublist [CHR 0x5C, CHR ''n''] (replace_escaped_newlines text)"
    using no_escape_after_replace by (simp add: has_escape_sublist)
next
  assume "\<not> sublist [CHR 0x5C, CHR ''n''] a"
  then show "replace_escaped_newlines (a @ [CHR 0x5C, CHR ''n''] @ b)
          = a @ CHR 0x0A # replace_escaped_newlines b"
    using replace_escaped_newlines_append [of a b] by (simp add: has_escape_sublist)
next
  assume "\<not> sublist [CHR 0x5C, CHR ''n''] text"
  then show "replace_escaped_newlines text = text"
    by (simp add: replace_escaped_newlines_id has_escape_sublist)
next
  assume w: "5 \<le> max_width"
  define ps where "ps = split_on (CHR 0x0A) (replace_escaped_newlines text)"
  define n where "n = nat (max_width div 5)"
  from w have pos: "0 < max_width div 5" by simp
  have fill: "tw_fill p (max_width div 5) = Inr (wrapped_block n p)" if "strip p \<noteq> []" for p
    using that by (simp add: tw_fill_wrap_paragraph [OF pos] wrapped_block_def n_def)
  have "wrapped_blocks (max_width div 5) ps = Inr (map (wrapped_block n) ps)"
    by (simp add: wrapped_blocks_map [OF pos] n_def)
  moreover have "wrap_for_multiline draw text font max_width
      = Inr (join [CHR 0x0A] (map (wrapped_block n) ps))"
    by (simp add: wrap_for_multiline_blocks [OF w] n_def ps_def)
  moreover have "\<forall>i < length (map (wrapped_block n) ps).
      (strip (ps ! i) = [] \<longrightarrow> map (wrapped_block n) ps ! i = [])
      \<and> (strip (ps ! i) \<noteq> [] \<longrightarrow> tw_fill (ps ! i) (max_width div 5)
            = Inr (map (wrapped_block n) ps ! i))"
    by (simp add: fill)
  ultimately show "\<exists>blocks.
           wrapped_blocks (max_width div 5) (split_on (CHR 0x0A) (replace_escaped_newlines text))
             = Inr blocks
           \<and> wrap_for_multiline draw text font max_width = Inr (join [CHR 0x0A] blocks)
           \<and> length blocks = length (split_on (CHR 0x0A) (replace_escaped_newlines text))
           \<and> (\<forall>i < length blocks.
                (strip (split_on (CHR 0x0A) (replace_escaped_newlines text) ! i) = []
                   \<longrightarrow> blocks ! i = [])
                \<and> (strip (split_on (CHR 0x0A) (replace_escaped_newlines text) ! i) \<noteq> []
                   \<longrightarrow> tw_fill (split_on (CHR 0x0A) (replace_escaped_newlines text) ! i)
                         (max_width div 5) = Inr (blocks ! i)))"
    unfolding ps_def [symmetric]
    by (intro exI [of _ "map (wrapped_block n) ps"] conjI) simp_all
next
  assume w: "5 \<le> max_width"
  then have pos: "0 < max_width div 5" by simp
  have "split_on (CHR 0x0A)
          (replace_escaped_newlines (''line1'' @ [CHR 0x0A, CHR 0x0A] @ ''line2''))
        = [''line1'', [], ''line2'']"
    by simp
  then show "\<exists>b1 b3.
           wrapped_blocks (max_width div 5)
             (split_on (CHR 0x0A)
                (replace_escaped_newlines (''line1'' @ [CHR 0x0A, CHR 0x0A] @ ''line2'')))
             = Inr [b1, [], b3]"
    by (simp only: wrapped_blocks_map [OF pos]) simp
qed

theorem escapes_become_paragraph_breaks_witness:
  "replace_escaped_newlines (''line1'' @ [CHR 0x5C, CHR ''n'', CHR 0x5C, CHR ''n''] @ ''line2'')
     = ''line1'' @ [CHR 0x0A, CHR 0x0A] @ ''line2''
   \<and> replace_escaped_newlines (''line1'' @ [CHR 0x0A, CHR 0x0A] @ ''line2'')
     = ''line1'' @ [CHR 0x0A, CHR 0x0A] @ ''line2''
   \<and> wrapped_blocks (100 div 5) [''line1'', [], ''line2''] = Inr [''line1'', [], ''line2'']
   \<and> wrap_for_multiline () (''line1'' @ [CHR 0x0A, CHR 0x0A] @ ''line2'') () 100
     = Inr (''line1'' @ [CHR 0x0A, CHR 0x0A] @ ''line2'')"
proof -
  have a: "\<not> sublist [CHR 0x5C, CHR ''n''] ''line1''"
    and t: "\<not> sublist [CHR 0x5C, CHR ''n''] (''line1'' @ [CHR 0x0A, CHR 0x0A] @ ''line2'')"
    by (simp_all add: sublist_Cons_right prefix_Cons)
  have w: "(5::int) \<le> 100" by simp
  have r: "replace_escaped_newlines (''line1'' @ [CHR 0x5C, CHR ''n'', CHR 0x5C, CHR ''n''] @ ''line2'')
     = ''line1'' @ [CHR 0x0A, CHR 0x0A] @ ''line2''" by simp
  have b: "wrapped_blocks (100 div 5) [''line1'', [], ''line2''] = Inr [''line1'', [], ''line2'']"
    by (simp add: wrap_eval)
  have m: "wrap_for_multiline () (''line1'' @ [CHR 0x0A, CHR 0x0A] @ ''line2'') () 100
     = Inr (''line1'' @ [CHR 0x0A, CHR 0x0A] @ ''line2'')"
    by (simp add: wrap_eval)
  from escapes_become_paragraph_breaks
         [of "''line1'' @ [CHR 0x0A, CHR 0x0A] @ ''line2''" "''line1''"
             "[CHR 0x5C, CHR ''n''] @ ''line2''" 100 "()" "()"] a t w
  have "replace_escaped_newlines (''line1'' @ [CHR 0x0A, CHR 0x0A] @ ''line2'')
     = ''line1'' @ [CHR 0x0A, CHR 0x0A] @ ''line2''"
    by blast
  with r b m show ?thesis by simp
qed


section \<open>Properties of the greedy wrap\<close>























section \<open>Wrapping twice\<close>

subsection \<open>Lines that end in a word\<close>

definition blank :: "string \<Rightarrow> bool" where
  "blank c = (\<forall>x \<in> set c. py_isspace x)"

definition solid :: "string \<Rightarrow> bool" where
  "solid c = (c \<noteq> [] \<and> (\<forall>x \<in> set c. \<not> py_isspace x))"

fun good_chunks :: "nat \<Rightarrow> string list \<Rightarrow> bool" where
  \<comment> \<open>chunks as \<open>_split\<close> leaves them when no word is longer than \<open>n\<close>: runs of whitespace,
      never two in a row, and pieces of words of at most \<open>n\<close> characters\<close>
  "good_chunks n [] = True"
| "good_chunks n (c # cs) =
     (c \<noteq> []
      \<and> (if blank c then (case cs of [] \<Rightarrow> True | d # ds \<Rightarrow> \<not> blank d)
          else solid c \<and> length c \<le> n)
      \<and> good_chunks n cs)"

lemma strip_Nil_iff: "strip c = [] \<longleftrightarrow> blank c"
proof
  assume "strip c = []"
  then have "dropWhile py_isspace (rev (dropWhile py_isspace c)) = []"
    by (simp add: strip_def lstrip_def rstrip_def)
  then have all: "\<forall>x \<in> set (dropWhile py_isspace c). py_isspace x"
    by (simp add: dropWhile_eq_Nil_conv)
  have "dropWhile py_isspace c = []"
  proof (rule ccontr)
    assume ne: "dropWhile py_isspace c \<noteq> []"
    then have "\<not> py_isspace (hd (dropWhile py_isspace c))" by (rule hd_dropWhile)
    moreover from ne have "hd (dropWhile py_isspace c) \<in> set (dropWhile py_isspace c)" by simp
    ultimately show False using all by blast
  qed
  then show "blank c" by (simp add: blank_def dropWhile_eq_Nil_conv)
next
  assume "blank c"
  then show "strip c = []"
    by (auto simp: blank_def strip_def lstrip_def rstrip_def dest: set_dropWhileD)
qed

lemma solid_not_blank: "solid c \<Longrightarrow> \<not> blank c"
  by (cases c) (auto simp: solid_def blank_def)

lemma good_chunks_tl: "good_chunks n cs \<Longrightarrow> good_chunks n (tl cs)"
  by (cases cs) auto

lemma good_chunks_append:
  "good_chunks n (l @ r) \<Longrightarrow> good_chunks n l \<and> good_chunks n r"
proof (induction l)
  case Nil
  then show ?case by simp
next
  case (Cons c l)
  then show ?case by (cases l) (auto split: if_splits list.splits)
qed

lemma good_chunks_member:
  "good_chunks n cs \<Longrightarrow> c \<in> set cs \<Longrightarrow> c \<noteq> [] \<and> (blank c \<or> (solid c \<and> length c \<le> n))"
  by (induction cs) (auto split: if_splits)

lemma good_chunks_boundary:
  "good_chunks n (l @ r) \<Longrightarrow> l \<noteq> [] \<Longrightarrow> r \<noteq> [] \<Longrightarrow> blank (hd r) \<Longrightarrow> \<not> blank (last l)"
proof (induction l)
  case Nil
  then show ?case by simp
next
  case (Cons c l)
  show ?case
  proof (cases l)
    case Nil
    with Cons.prems show ?thesis by (cases r) (auto split: if_splits)
  next
    case (Cons d ds)
    with Cons.IH Cons.prems show ?thesis by (auto split: if_splits)
  qed
qed

lemma good_chunks_shrink:
  "good_chunks n (b # cs) \<Longrightarrow> blank b \<Longrightarrow> b' \<noteq> [] \<Longrightarrow> blank b' \<Longrightarrow> good_chunks n (b' # cs)"
  by simp

lemma good_chunks_last_solid:
  assumes "good_chunks n l" and "l \<noteq> []" and "\<not> blank (last l)"
  shows "solid (last l)"
  using good_chunks_member [OF assms(1), of "last l"] assms(2,3) by auto

lemma blank_take: "blank c \<Longrightarrow> blank (take k c)"
  by (auto simp: blank_def dest: in_set_takeD)

lemma blank_drop: "blank c \<Longrightarrow> blank (drop k c)"
  by (auto simp: blank_def dest: in_set_dropD)

lemma drop_blank_solid:
  assumes gl: "good_chunks n l" and ne: "drop_blank l \<noteq> []"
  shows "solid (last (drop_blank l))"
proof (cases "blank (last l)")
  case True
  from ne have l: "l \<noteq> []" by (auto simp: drop_blank_def)
  with True have d: "drop_blank l = butlast l"
    by (simp add: drop_blank_def strip_Nil_iff)
  from l have split: "l = butlast l @ [last l]" by simp
  from ne d have b: "butlast l \<noteq> []" by simp
  from gl split have g: "good_chunks n (butlast l @ [last l])" by simp
  have "\<not> blank (last (butlast l))"
    by (rule good_chunks_boundary [OF g b]) (simp_all add: True)
  moreover from good_chunks_append [OF g] have "good_chunks n (butlast l)" by simp
  ultimately have "solid (last (butlast l))" using b by (intro good_chunks_last_solid)
  with d show ?thesis by simp
next
  case False
  from ne have l: "l \<noteq> []" by (auto simp: drop_blank_def)
  with False have d: "drop_blank l = l"
    by (simp add: drop_blank_def strip_Nil_iff)
  from good_chunks_last_solid [OF gl l False] d show ?thesis by simp
qed

lemma wrap_line_good:
  assumes n: "1 \<le> n" and good: "good_chunks n chunks"
    and wl: "wrap_line n chunks st = (chunks', cur_line)"
  shows "good_chunks n chunks' \<and> (cur_line \<noteq> [] \<longrightarrow> solid (last cur_line))"
proof -
  define C0 where "C0 = (if strip (hd chunks) = [] \<and> st then tl chunks else chunks)"
  have g0: "good_chunks n C0"
    using good by (simp add: C0_def good_chunks_tl)
  obtain l r where tf: "take_fitting n 0 C0 = (l, r)" by (cases "take_fitting n 0 C0")
  from take_fitting_append [OF tf] have C0: "C0 = l @ r" .
  from g0 have glr: "good_chunks n (l @ r)" by (simp only: C0)
  from good_chunks_append [OF glr] have gl: "good_chunks n l" and gr: "good_chunks n r"
    by simp_all
  define e where "e = long_word_end (hd r) (n - sum_list (map length l))"
  from n have sp: "(if n < 1 then 1 else n - sum_list (map length l)) = n - sum_list (map length l)"
    by simp
  have eq: "wrap_line n chunks st =
     (if r \<noteq> [] \<and> n < length (hd r)
      then (drop e (hd r) # tl r, drop_blank (l @ [take e (hd r)]))
      else (r, drop_blank l))"
    using wrap_line_eq [OF tf [unfolded C0_def]] unfolding sp e_def .
  show ?thesis
  proof (cases "r \<noteq> [] \<and> n < length (hd r)")
    case True
    then have rne: "r \<noteq> []" and long: "n < length (hd r)" by simp_all
    from eq True have "wrap_line n chunks st = (drop e (hd r) # tl r, drop_blank (l @ [take e (hd r)]))"
      by (simp only: simp_thms if_True)
    with wl have c': "chunks' = drop e (hd r) # tl r"
      and cl: "cur_line = drop_blank (l @ [take e (hd r)])"
      by simp_all
    from rne have r: "r = hd r # tl r" by simp
    from rne have "hd r \<in> set r" by simp
    from good_chunks_member [OF gr this] long have bl: "blank (hd r)" by auto
    have "e \<le> n - sum_list (map length l)"
      unfolding e_def by (rule long_word_end_le)
    with long have "e < length (hd r)" by simp
    then have dne: "drop e (hd r) \<noteq> []" by simp
    from gr r have "good_chunks n (hd r # tl r)" by simp
    then have "good_chunks n (drop e (hd r) # tl r)"
      using bl dne blank_drop [OF bl] by (rule good_chunks_shrink)
    then have 1: "good_chunks n chunks'" by (simp only: c')
    from bl have "strip (take e (hd r)) = []" by (simp add: strip_Nil_iff blank_take)
    with cl have cl': "cur_line = l" by (simp add: drop_blank_def)
    have 2: "solid (last cur_line)" if "cur_line \<noteq> []"
    proof -
      from that cl' have l: "l \<noteq> []" by simp
      from good_chunks_boundary [OF glr l rne bl] have "\<not> blank (last l)" .
      from good_chunks_last_solid [OF gl l this] cl' show ?thesis by simp
    qed
    from 1 2 show ?thesis by simp
  next
    case False
    with eq have "wrap_line n chunks st = (r, drop_blank l)"
      by (simp only: simp_thms if_False)
    with wl have "chunks' = r" and "cur_line = drop_blank l" by simp_all
    with gr drop_blank_solid [OF gl] show ?thesis by simp
  qed
qed

lemma last_concat:
  assumes "xs \<noteq> []" and "last xs \<noteq> []"
  shows "last (concat xs) = last (last xs)"
proof -
  from assms(1) have "concat xs = concat (butlast xs @ [last xs])" by simp
  then have "concat xs = concat (butlast xs) @ last xs" by (simp del: append_butlast_last_id)
  with assms(2) show ?thesis by simp
qed

lemma wrap_loop_lines_end:
  assumes "1 \<le> n" and "good_chunks n chunks" and "line \<in> set (wrap_loop n chunks lines)"
  shows "line \<in> set lines \<or> (line \<noteq> [] \<and> \<not> py_isspace (last line))"
  using assms
proof (induction n chunks lines rule: wrap_loop.induct)
  case (1 width lines)
  then show ?case by simp
next
  case (2 width c cs lines)
  obtain chunks' cur_line where wl: "wrap_line width (c # cs) (lines \<noteq> []) = (chunks', cur_line)"
    by (cases "wrap_line width (c # cs) (lines \<noteq> [])")
  from wrap_line_good [OF "2.prems"(1,2) wl]
  have g: "good_chunks width chunks'" "cur_line \<noteq> [] \<Longrightarrow> solid (last cur_line)"
    by simp_all
  from "2.prems"(3) wl
  have "line \<in> set (wrap_loop width chunks'
          (if cur_line \<noteq> [] then lines @ [concat cur_line] else lines))"
    by simp
  from "2.IH" [OF wl [symmetric] "2.prems"(1) g(1) this]
  have "line \<in> set (if cur_line \<noteq> [] then lines @ [concat cur_line] else lines)
      \<or> (line \<noteq> [] \<and> \<not> py_isspace (last line))" .
  then consider "line \<in> set lines" | "cur_line \<noteq> []" "line = concat cur_line"
    | "line \<noteq> [] \<and> \<not> py_isspace (last line)"
    by (auto split: if_splits)
  then show ?case
  proof cases
    case 1
    then show ?thesis by simp
  next
    case 2
    from g(2) [OF 2(1)] have s: "solid (last cur_line)" .
    then have l: "last cur_line \<noteq> []" by (simp add: solid_def)
    from last_concat [OF 2(1) l] have "last (concat cur_line) = last (last cur_line)" .
    moreover from l have "last (last cur_line) \<in> set (last cur_line)" by simp
    moreover from 2(1) l have "concat cur_line \<noteq> []"
      by (metis concat_eq_Nil_conv last_in_set)
    ultimately show ?thesis using s 2(2) by (auto simp: solid_def)
  next
    case 3
    then show ?thesis by simp
  qed
qed

lemma tw_whitespace_isspace: "tw_whitespace c \<Longrightarrow> py_isspace c"
  by (auto simp: tw_whitespace_def py_isspace_def Let_def)

lemma hyphen_not_whitespace: "is_hyphen c \<Longrightarrow> \<not> tw_whitespace c"
  by (simp add: is_hyphen_def tw_whitespace_def)

lemma word_end_no_whitespace:
  "x \<in> set (take (word_end b s) s) \<Longrightarrow> \<not> tw_whitespace x"
proof (induction b s rule: word_end.induct)
  case (1 b)
  then show ?case by simp
next
  case (2 b c cs)
  then show ?case
    by (auto split: if_splits simp: hyphen_not_whitespace)
qed

lemma chunk_rest_word:
  assumes "\<not> tw_whitespace c" and "x \<in> set (take (chunk_rest b c cs) cs)"
  shows "\<not> tw_whitespace x"
proof (cases "(case b of [] \<Rightarrow> False | d # ds \<Rightarrow> word_punct d) \<and> emdash_ahead (c # cs)")
  case True
  with assms(1) have "take (chunk_rest b c cs) cs = takeWhile is_hyphen cs"
    by (simp add: chunk_rest_def takeWhile_eq_take [symmetric])
  with assms(2) have "is_hyphen x" by (auto dest: set_takeWhileD)
  then show ?thesis by (rule hyphen_not_whitespace)
next
  case False
  with assms(1) have "chunk_rest b c cs = word_end (c # b) cs"
    by (auto simp: chunk_rest_def)
  with assms(2) show ?thesis by (simp add: word_end_no_whitespace)
qed

lemma chunk_rest_blank:
  assumes "tw_whitespace c"
  shows "take (chunk_rest b c cs) cs = takeWhile tw_whitespace cs"
    and "drop (chunk_rest b c cs) cs = dropWhile tw_whitespace cs"
  using assms
  by (simp_all add: chunk_rest_def takeWhile_eq_take [symmetric] dropWhile_eq_drop [symmetric])

lemma split_from_nonempty: "[] \<notin> set (split_from b s)"
  by (induction b s rule: split_from.induct) simp_all

definition plain_space :: "string \<Rightarrow> bool" where
  \<comment> \<open>the only whitespace is the whitespace of \<open>textwrap\<close>: tab, line feed, vertical tab,
      form feed, carriage return and space\<close>
  "plain_space s = (\<forall>x \<in> set s. py_isspace x \<longrightarrow> tw_whitespace x)"

definition runs_within :: "nat \<Rightarrow> string \<Rightarrow> bool" where
  "runs_within n s = (\<forall>w. sublist w s \<longrightarrow> (\<forall>x \<in> set w. \<not> tw_whitespace x) \<longrightarrow> length w \<le> n)"

lemma plain_space_sublist: "plain_space s \<Longrightarrow> sublist w s \<Longrightarrow> plain_space w"
  using set_mono_sublist [of w s] by (auto simp: plain_space_def)

lemma runs_within_sublist: "runs_within n s \<Longrightarrow> sublist w s \<Longrightarrow> runs_within n w"
  unfolding runs_within_def using sublist_order.order_trans by blast

lemma split_from_good:
  assumes "plain_space s" and "runs_within n s"
  shows "good_chunks n (split_from b s)"
  using assms
proof (induction b s rule: split_from.induct)
  case (1 b)
  then show ?case by simp
next
  case (2 b c cs)
  define k where "k = chunk_rest b c cs"
  define chunk where "chunk = c # take k cs"
  define rest where "rest = drop k cs"
  define tail where "tail = split_from (rev (take k cs) @ c # b) rest"
  have sf: "split_from b (c # cs) = chunk # tail"
    by (simp add: chunk_def tail_def rest_def k_def)
  have "suffix rest (c # cs)"
    unfolding rest_def by (metis suffix_drop suffix_Cons suffix_order.order_trans)
  then have sub: "sublist rest (c # cs)" by (rule suffix_imp_sublist)
  have ps: "plain_space rest" and rw: "runs_within n rest"
    using "2.prems" sub by (auto intro: plain_space_sublist runs_within_sublist)
  have gt: "good_chunks n tail"
    unfolding tail_def rest_def k_def
    by (rule "2.IH") (use ps rw in \<open>simp_all add: rest_def k_def\<close>)
  have cne: "chunk \<noteq> []" by (simp add: chunk_def)
  have pre: "sublist chunk (c # cs)"
    unfolding chunk_def by (simp add: take_is_prefix)
  have isp: "py_isspace x \<Longrightarrow> tw_whitespace x" if "x \<in> set (c # cs)" for x
    using "2.prems"(1) that by (auto simp: plain_space_def)
  show ?case
  proof (cases "tw_whitespace c")
    case True
    have ct: "take k cs = takeWhile tw_whitespace cs" and cd: "rest = dropWhile tw_whitespace cs"
      unfolding k_def rest_def by (rule chunk_rest_blank [OF True])+
    have bl: "blank chunk"
      using True by (auto simp: blank_def chunk_def ct tw_whitespace_isspace dest: set_takeWhileD)
    have nx: "case tail of [] \<Rightarrow> True | d # ds \<Rightarrow> \<not> blank d"
    proof (cases rest)
      case Nil
      then show ?thesis by (simp add: tail_def)
    next
      case (Cons r rs)
      then have "r = hd (dropWhile tw_whitespace cs)" and "dropWhile tw_whitespace cs \<noteq> []"
        by (simp_all add: cd [symmetric])
      then have "\<not> tw_whitespace r" by (simp add: hd_dropWhile)
      moreover have "r \<in> set (c # cs)"
        using Cons set_mono_sublist [OF sub] by auto
      ultimately have "\<not> py_isspace r" using isp by blast
      with Cons show ?thesis by (simp add: tail_def blank_def)
    qed
    from bl nx gt cne show ?thesis unfolding sf by simp
  next
    case False
    have nw: "\<not> tw_whitespace x" if "x \<in> set chunk" for x
      using that False chunk_rest_word [OF False, of x b cs] by (auto simp: chunk_def k_def)
    have "\<not> py_isspace x" if "x \<in> set chunk" for x
      using nw [OF that] isp [of x] that set_mono_sublist [OF pre] by blast
    then have so: "solid chunk" by (simp add: solid_def chunk_def)
    from "2.prems"(2) pre nw have "length chunk \<le> n"
      unfolding runs_within_def by blast
    with so gt solid_not_blank [OF so] cne show ?thesis unfolding sf by simp
  qed
qed

lemma sublist_skip:
  assumes "sublist w (a @ c # b)" and "c \<notin> set w"
  shows "sublist w a \<or> sublist w b"
proof -
  from assms(1) consider "sublist w a" | "sublist w (c # b)"
    | xs1 xs2 where "w = xs1 @ xs2" "suffix xs1 a" "prefix xs2 (c # b)"
    unfolding sublist_append by blast
  then show ?thesis
  proof cases
    case 1
    then show ?thesis by simp
  next
    case 2
    then have "prefix w (c # b) \<or> sublist w b" by (simp add: sublist_Cons_right)
    with assms(2) show ?thesis by (auto simp: prefix_Cons)
  next
    case 3
    from 3(3) assms(2) 3(1) have "xs2 = []" by (auto simp: prefix_Cons)
    with 3(1,2) show ?thesis by auto
  qed
qed

lemma sublist_skip_replicate:
  "sublist w (replicate k c @ b) \<Longrightarrow> c \<notin> set w \<Longrightarrow> sublist w b"
proof (induction k)
  case 0
  then show ?case by simp
next
  case (Suc k)
  from Suc.prems(1) have "prefix w (c # replicate k c @ b) \<or> sublist w (replicate k c @ b)"
    by (simp add: sublist_Cons_right)
  then show ?case
  proof
    assume "prefix w (c # replicate k c @ b)"
    with Suc.prems(2) have "w = []" by (auto simp: prefix_Cons)
    then show ?thesis by simp
  next
    assume "sublist w (replicate k c @ b)"
    with Suc show ?thesis by simp
  qed
qed

lemma set_expandtabs: "set (expandtabs col s) \<subseteq> insert (CHR '' '') (set s)"
  by (induction s arbitrary: col) auto

lemma munge_whitespace_from:
  "x \<in> set (munge_whitespace p) \<Longrightarrow> x = CHR '' '' \<or> x \<in> set p"
  using set_expandtabs [of 0 p] by (auto simp: munge_whitespace_def split: if_splits)

lemma plain_space_munge:
  assumes "plain_space p"
  shows "plain_space (munge_whitespace p)"
  unfolding plain_space_def
proof (intro ballI impI)
  fix x
  assume "x \<in> set (munge_whitespace p)" and sp: "py_isspace x"
  from munge_whitespace_from [OF this(1)] show "tw_whitespace x"
  proof
    assume "x = CHR '' ''"
    then show ?thesis by (simp add: tw_whitespace_def)
  next
    assume "x \<in> set p"
    with assms sp show ?thesis by (simp add: plain_space_def)
  qed
qed

lemma tab_width: "\<exists>j. 8 - col mod 8 = Suc j"
  by (cases "8 - col mod 8") (simp_all add: mod_less_divisor)

lemma munge_prefix:
  assumes "prefix w (map (\<lambda>c. if tw_whitespace c then CHR '' '' else c) (expandtabs col p))"
    and "\<forall>x \<in> set w. \<not> tw_whitespace x"
  shows "prefix w p"
  using assms
proof (induction p arbitrary: col w)
  case Nil
  then show ?case by simp
next
  case (Cons c cs)
  show ?case
  proof (cases w)
    case Nil
    then show ?thesis by simp
  next
    case w: (Cons x xs)
    from Cons.prems(2) w have x: "\<not> tw_whitespace x" by simp
    show ?thesis
    proof (cases "c = CHR 0x09")
      case True
      obtain j where "8 - col mod 8 = Suc j" using tab_width by blast
      with True Cons.prems(1) w have "x = CHR '' ''" by simp
      with x show ?thesis by simp
    next
      case False
      define col' where "col' = (if c = CHR 0x0A \<or> c = CHR 0x0D then 0 else Suc col)"
      from False have e: "expandtabs col (c # cs) = c # expandtabs col' cs"
        by (simp add: col'_def)
      from Cons.prems(1) w have fx: "x = (if tw_whitespace c then CHR '' '' else c)"
        and rest: "prefix xs (map (\<lambda>c. if tw_whitespace c then CHR '' '' else c) (expandtabs col' cs))"
        unfolding e by simp_all
      from fx x have xc: "x = c" by (cases "tw_whitespace c") simp_all
      from Cons.prems(2) w have "\<forall>x \<in> set xs. \<not> tw_whitespace x" by simp
      from Cons.IH [OF rest this] xc w show ?thesis by simp
    qed
  qed
qed

lemma munge_sublist:
  assumes "sublist w (map (\<lambda>c. if tw_whitespace c then CHR '' '' else c) (expandtabs col p))"
    and "\<forall>x \<in> set w. \<not> tw_whitespace x"
  shows "sublist w p"
  using assms
proof (induction p arbitrary: col)
  case Nil
  then show ?case by simp
next
  case (Cons c cs)
  let ?f = "\<lambda>c. if tw_whitespace c then CHR '' '' else c"
  from Cons.prems(2) have sp: "CHR '' '' \<notin> set w" by auto
  show ?case
  proof (cases "c = CHR 0x09")
    case True
    then have "map ?f (expandtabs col (c # cs))
        = replicate (8 - col mod 8) (CHR '' '') @ map ?f (expandtabs (col + (8 - col mod 8)) cs)"
      by simp
    with Cons.prems(1) have "sublist w (replicate (8 - col mod 8) (CHR '' '')
        @ map ?f (expandtabs (col + (8 - col mod 8)) cs))"
      by simp
    from sublist_skip_replicate [OF this sp]
    have "sublist w (map ?f (expandtabs (col + (8 - col mod 8)) cs))" .
    from Cons.IH [OF this Cons.prems(2)] show ?thesis by (simp add: sublist_Cons_right)
  next
    case False
    define col' where "col' = (if c = CHR 0x0A \<or> c = CHR 0x0D then 0 else Suc col)"
    from False have e: "expandtabs col (c # cs) = c # expandtabs col' cs"
      by (simp add: col'_def)
    from Cons.prems(1) have "prefix w (map ?f (expandtabs col (c # cs)))
        \<or> sublist w (map ?f (expandtabs col' cs))"
      unfolding e by (simp add: sublist_Cons_right)
    then show ?thesis
    proof
      assume "prefix w (map ?f (expandtabs col (c # cs)))"
      from munge_prefix [OF this Cons.prems(2)] show ?thesis by (rule prefix_imp_sublist)
    next
      assume "sublist w (map ?f (expandtabs col' cs))"
      from Cons.IH [OF this Cons.prems(2)] show ?thesis by (simp add: sublist_Cons_right)
    qed
  qed
qed

lemma munge_whitespace_sublist:
  "sublist w (munge_whitespace p) \<Longrightarrow> \<forall>x \<in> set w. \<not> tw_whitespace x \<Longrightarrow> sublist w p"
  unfolding munge_whitespace_def by (rule munge_sublist)

lemma join_member_sublist: "x \<in> set xs \<Longrightarrow> sublist x (join sep xs)"
proof (induction xs)
  case Nil
  then show ?case by simp
next
  case (Cons y ys)
  show ?case
  proof (cases "ys = []")
    case True
    with Cons.prems show ?thesis by simp
  next
    case False
    then have j: "join sep (y # ys) = y @ sep @ join sep ys" by (rule join_Cons)
    from Cons.prems have "x = y \<or> x \<in> set ys" by auto
    then show ?thesis
    proof
      assume "x = y"
      then show ?thesis unfolding j by simp
    next
      assume "x \<in> set ys"
      then have "sublist x (join sep ys)" by (rule Cons.IH)
      moreover have "sublist (join sep ys) ((y @ sep) @ join sep ys)"
        by (rule sublist_append_leftI)
      ultimately show ?thesis unfolding j using sublist_order.order_trans by fastforce
    qed
  qed
qed

lemma split_on_member_sublist: "p \<in> set (split_on sep s) \<Longrightarrow> sublist p s"
  using join_member_sublist [of p "split_on sep s" "[sep]"] by (simp add: join_split_on)

lemma join_sublist_member:
  assumes "sublist w (join [sep] xs)" and "sep \<notin> set w" and "w \<noteq> []"
  shows "\<exists>x \<in> set xs. sublist w x"
  using assms(1)
proof (induction xs)
  case Nil
  with assms(3) show ?case by simp
next
  case (Cons y ys)
  show ?case
  proof (cases "ys = []")
    case True
    with Cons.prems show ?thesis by simp
  next
    case False
    then have "join [sep] (y # ys) = y @ sep # join [sep] ys" by (simp add: join_Cons)
    with Cons.prems have "sublist w (y @ sep # join [sep] ys)" by simp
    from sublist_skip [OF this assms(2)] Cons.IH show ?thesis by auto
  qed
qed

lemma split_ws_covers:
  assumes "sublist w (cur @ s)" and "w \<noteq> []" and "\<forall>x \<in> set w. \<not> py_isspace x"
  shows "\<exists>word \<in> set (split_ws cur s). sublist w word"
  using assms(1)
proof (induction s arbitrary: cur)
  case Nil
  with assms(2) have "cur \<noteq> []" by auto
  with Nil show ?case by simp
next
  case (Cons c cs)
  show ?case
  proof (cases "py_isspace c")
    case True
    with assms(3) have "c \<notin> set w" by auto
    from sublist_skip [OF Cons.prems this] show ?thesis
    proof
      assume a: "sublist w cur"
      with assms(2) have "cur \<noteq> []" by auto
      with True a show ?thesis by simp
    next
      assume "sublist w cs"
      then have "sublist w ([] @ cs)" by simp
      from Cons.IH [OF this] True show ?thesis by auto
    qed
  next
    case False
    from Cons.prems have "sublist w ((cur @ [c]) @ cs)" by simp
    from Cons.IH [OF this] False show ?thesis by simp
  qed
qed

lemma py_split_covers:
  assumes "sublist w s" and "w \<noteq> []" and "\<forall>x \<in> set w. \<not> py_isspace x"
  shows "\<exists>word \<in> set (py_split s). sublist w word"
  unfolding py_split_def using split_ws_covers [of w "[]" s] assms by simp

lemma set_replace_escaped_newlines:
  "set (replace_escaped_newlines s) \<subseteq> insert (CHR 0x0A) (set s)"
  by (induction s rule: replace_escaped_newlines.induct) auto

lemma plain_space_replace: "plain_space s \<Longrightarrow> plain_space (replace_escaped_newlines s)"
  unfolding plain_space_def using set_replace_escaped_newlines [of s] by auto

lemma runs_within_munge:
  assumes ps: "plain_space t" and words: "\<forall>word \<in> set (py_split t). length word \<le> n"
    and p: "sublist p t"
  shows "runs_within n (munge_whitespace p)"
  unfolding runs_within_def
proof (intro allI impI)
  fix w
  assume sub: "sublist w (munge_whitespace p)" and nw: "\<forall>x \<in> set w. \<not> tw_whitespace x"
  show "length w \<le> n"
  proof (cases "w = []")
    case True
    then show ?thesis by simp
  next
    case False
    from munge_whitespace_sublist [OF sub nw] have "sublist w p" .
    with p have wt: "sublist w t" using sublist_order.order_trans by blast
    from set_mono_sublist [OF wt] ps nw have "\<forall>x \<in> set w. \<not> py_isspace x"
      by (auto simp: plain_space_def)
    from py_split_covers [OF wt False this] obtain word
      where "word \<in> set (py_split t)" and "sublist w word" by blast
    with words sublist_length_le [of w word] show ?thesis by fastforce
  qed
qed

lemma expandtabs_id: "CHR 0x09 \<notin> set s \<Longrightarrow> expandtabs col s = s"
  by (induction s arbitrary: col) auto

lemma munge_whitespace_id:
  assumes "\<forall>x \<in> set s. tw_whitespace x \<longrightarrow> x = CHR '' ''"
  shows "munge_whitespace s = s"
proof -
  have "tw_whitespace (CHR 0x09)" by (simp add: tw_whitespace_def)
  with assms have "CHR 0x09 \<notin> set s" by auto
  then have "expandtabs 0 s = s" by (rule expandtabs_id)
  moreover from assms have "map (\<lambda>c. if tw_whitespace c then CHR '' '' else c) s = s"
    by (intro map_idI) auto
  ultimately show ?thesis by (simp add: munge_whitespace_def)
qed

lemma paragraph_lines:
  assumes n: "1 \<le> n" and ps: "plain_space p" and rw: "runs_within n (munge_whitespace p)"
    and L: "line \<in> set (wrap_paragraph n p)"
  shows "line \<noteq> []" and "\<not> py_isspace (last line)" and "length line \<le> n"
    and "sublist line (munge_whitespace p)"
proof -
  from plain_space_munge [OF ps] rw
  have "good_chunks n (tw_split (munge_whitespace p))"
    unfolding tw_split_def by (rule split_from_good)
  from wrap_loop_lines_end [OF n this L [unfolded wrap_paragraph_def]]
  show "line \<noteq> []" and "\<not> py_isspace (last line)" by simp_all
  from wrap_paragraph_lines [OF n L]
  show "length line \<le> n" and "sublist line (munge_whitespace p)" by simp_all
qed

lemma rewrap_line:
  assumes n: "1 \<le> n" and ne: "line \<noteq> []" and fin: "\<not> py_isspace (last line)"
    and len: "length line \<le> n" and sp: "\<forall>x \<in> set line. tw_whitespace x \<longrightarrow> x = CHR '' ''"
  shows "wrapped_block n line = line"
proof -
  define C where "C = tw_split line"
  have m: "munge_whitespace line = line" using sp by (rule munge_whitespace_id)
  have cc: "concat C = line" by (simp add: C_def concat_tw_split)
  have nn: "[] \<notin> set C" by (simp add: C_def tw_split_def split_from_nonempty)
  from cc ne have Cne: "C \<noteq> []" by auto
  then obtain c cs where C: "C = c # cs" by (cases C) auto
  from Cne nn have lne: "last C \<noteq> []" by (metis last_in_set)
  from last_concat [OF Cne lne] cc have "last (last C) = last line" by simp
  moreover from lne have "last (last C) \<in> set (last C)" by (rule last_in_set)
  ultimately have "\<not> blank (last C)" using fin by (auto simp: blank_def)
  then have db: "drop_blank C = C" by (simp add: drop_blank_def strip_Nil_iff)
  have "0 + sum_list (map length C) \<le> n"
    using len cc by (simp add: sum_list_length_concat)
  then have "take_fitting n 0 C = (C, [])" by (rule take_fitting_all)
  then have "take_fitting n 0 (if strip (hd C) = [] \<and> False then tl C else C) = (C, [])"
    by simp
  from wrap_line_eq [OF this] have "wrap_line n C False = ([], drop_blank C)"
    by (simp only: simp_thms if_False)
  with db have wl: "wrap_line n (c # cs) False = ([], c # cs)" by (simp add: C)
  have "wrap_loop n (c # cs) [] = [concat (c # cs)]"
    by (simp add: wl del: concat.simps)
  with cc C have "wrap_paragraph n line = [line]"
    by (simp add: wrap_paragraph_def m C_def [symmetric])
  moreover from ne have "last line \<in> set line" by (rule last_in_set)
  with fin have "\<not> blank line" by (auto simp: blank_def)
  ultimately show ?thesis by (simp add: wrapped_block_def strip_Nil_iff)
qed

lemma no_escape_join:
  assumes "\<forall>x \<in> set xs. \<not> has_escape x"
  shows "\<not> has_escape (join [CHR 0x0A] xs)"
proof
  assume "has_escape (join [CHR 0x0A] xs)"
  then have "sublist [CHR 0x5C, CHR ''n''] (join [CHR 0x0A] xs)"
    by (simp add: has_escape_sublist)
  then have "\<exists>x \<in> set xs. sublist [CHR 0x5C, CHR ''n''] x"
    by (rule join_sublist_member) simp_all
  with assms show False by (simp add: has_escape_sublist)
qed

lemma no_escape_sublist: "\<not> has_escape s \<Longrightarrow> sublist w s \<Longrightarrow> \<not> has_escape w"
  unfolding has_escape_sublist using sublist_order.order_trans by blast

lemma no_escape_munge:
  assumes "\<not> has_escape p" and "sublist w (munge_whitespace p)"
  shows "\<not> has_escape w"
proof
  assume "has_escape w"
  then have "sublist [CHR 0x5C, CHR ''n''] w" by (simp add: has_escape_sublist)
  with assms(2) have "sublist [CHR 0x5C, CHR ''n''] (munge_whitespace p)"
    using sublist_order.order_trans by blast
  then have "sublist [CHR 0x5C, CHR ''n''] p"
    by (rule munge_whitespace_sublist) (simp add: tw_whitespace_def)
  with assms(1) show False by (simp add: has_escape_sublist)
qed

lemma wrap_twice:
  assumes w: "5 \<le> max_width"
    and sp: "plain_space text"
    and words: "\<forall>word \<in> set (py_split (replace_escaped_newlines text)).
                  int (length word) \<le> max_width div 5"
  shows "\<exists>wrapped. wrap_for_multiline draw text font max_width = Inr wrapped
           \<and> wrap_for_multiline draw wrapped font max_width = Inr wrapped"
proof -
  define n where "n = nat (max_width div 5)"
  define t where "t = replace_escaped_newlines text"
  define blocks where "blocks = map (wrapped_block n) (split_on (CHR 0x0A) t)"
  define out where "out = join [CHR 0x0A] blocks"
  from w have n: "1 \<le> n" by (simp add: n_def)
  have bne: "blocks \<noteq> []" by (simp add: blocks_def)
  have first: "wrap_for_multiline draw text font max_width = Inr out"
    by (simp add: wrap_for_multiline_blocks [OF w] out_def blocks_def n_def t_def)
  have pst: "plain_space t" unfolding t_def using sp by (rule plain_space_replace)
  have net: "\<not> has_escape t" unfolding t_def by (rule no_escape_after_replace)
  from words w have wn: "\<forall>word \<in> set (py_split t). length word \<le> n"
    by (simp add: n_def t_def le_nat_iff)
  have line: "line \<noteq> [] \<and> \<not> py_isspace (last line) \<and> length line \<le> n
      \<and> sublist line (munge_whitespace p) \<and> \<not> has_escape line"
    if p: "p \<in> set (split_on (CHR 0x0A) t)" and L: "line \<in> set (wrap_paragraph n p)" for p line
  proof -
    from p have sub: "sublist p t" by (rule split_on_member_sublist)
    from pst sub have psp: "plain_space p" by (rule plain_space_sublist)
    from pst wn sub have rw: "runs_within n (munge_whitespace p)" by (rule runs_within_munge)
    note pl = paragraph_lines [OF n psp rw L]
    from net sub have "\<not> has_escape p" by (rule no_escape_sublist)
    from no_escape_munge [OF this pl(4)] pl show ?thesis by simp
  qed
  have lines: "line = [] \<or> (\<exists>p \<in> set (split_on (CHR 0x0A) t). line \<in> set (wrap_paragraph n p))"
    if "line \<in> set (concat (map (split_on (CHR 0x0A)) blocks))" for line
  proof -
    from that obtain p where p: "p \<in> set (split_on (CHR 0x0A) t)"
      and "line \<in> set (split_on (CHR 0x0A) (wrapped_block n p))"
      by (auto simp: blocks_def)
    from split_on_wrapped_block [OF n this(2)] p show ?thesis by blast
  qed
  have same: "wrapped_block n line = line"
    if "line \<in> set (concat (map (split_on (CHR 0x0A)) blocks))" for line
  proof -
    from lines [OF that] show ?thesis
    proof
      assume "line = []"
      then show ?thesis by simp
    next
      assume "\<exists>p \<in> set (split_on (CHR 0x0A) t). line \<in> set (wrap_paragraph n p)"
      then obtain p where p: "p \<in> set (split_on (CHR 0x0A) t)"
        and L: "line \<in> set (wrap_paragraph n p)" by blast
      note l = line [OF p L]
      from l have "set line \<subseteq> set (munge_whitespace p)"
        by (intro set_mono_sublist) simp
      then have "\<forall>x \<in> set line. tw_whitespace x \<longrightarrow> x = CHR '' ''"
        using munge_whitespace_chars [of _ p] by blast
      with l n show ?thesis by (intro rewrap_line) simp_all
    qed
  qed
  have "\<not> has_escape b" if "b \<in> set blocks" for b
  proof -
    from that obtain p where p: "p \<in> set (split_on (CHR 0x0A) t)" and b: "b = wrapped_block n p"
      by (auto simp: blocks_def)
    show ?thesis
    proof (cases "strip p = []")
      case True
      with b show ?thesis by simp
    next
      case False
      with b have "b = join [CHR 0x0A] (wrap_paragraph n p)" by (simp add: wrapped_block_def)
      moreover have "\<forall>x \<in> set (wrap_paragraph n p). \<not> has_escape x"
        using line [OF p] by blast
      ultimately show ?thesis by (simp add: no_escape_join)
    qed
  qed
  then have "\<not> has_escape out" unfolding out_def by (intro no_escape_join) blast
  then have r: "replace_escaped_newlines out = out" by (rule replace_escaped_newlines_id)
  have s: "split_on (CHR 0x0A) out = concat (map (split_on (CHR 0x0A)) blocks)"
    unfolding out_def using bne by (rule split_on_join)
  have "map (wrapped_block n) (concat (map (split_on (CHR 0x0A)) blocks))
      = concat (map (split_on (CHR 0x0A)) blocks)"
    by (rule map_idI) (rule same)
  then have "wrap_for_multiline draw out font max_width
      = Inr (join [CHR 0x0A] (concat (map (split_on (CHR 0x0A)) blocks)))"
    by (simp add: wrap_for_multiline_blocks [OF w] r s n_def [symmetric])
  also have "\<dots> = Inr out"
    unfolding out_def using bne by (simp add: join_concat_split_on)
  finally show ?thesis using first by blast
qed

text \<open>
  Claim C8, as amended. Wrapping is idempotent on its own output when no word has to be
  broken: for a wrap width of at least 5 pixels and a caption whose whitespace is only the
  whitespace that \<open>textwrap\<close> knows (tab, line feed, vertical tab, form feed, carriage
  return, space) and whose words, after the escaped newlines are converted, have at most
  \<open>wrapWidthPx div 5\<close> characters each, the wrap step returns a block, and applied to
  that block it returns the same block: \<open>wrap (wrap t) = wrap t\<close>.
\<close>

theorem wrap_is_idempotent_when_words_fit:
  assumes "5 \<le> max_width"
    and "\<forall>c \<in> set text. py_isspace c \<longrightarrow> tw_whitespace c"
    and "\<forall>word \<in> set (py_split (replace_escaped_newlines text)).
           int (length word) \<le> max_width div 5"
  shows "\<exists>wrapped. wrap_for_multiline draw text font max_width = Inr wrapped
           \<and> wrap_for_multiline draw wrapped font max_width = Inr wrapped"
proof -
  from assms(2) have "plain_space text" by (simp add: plain_space_def)
  with assms(1) show ?thesis using assms(3) by (rule wrap_twice)
qed

theorem wrap_is_idempotent_when_words_fit_witness:
  "wrap_for_multiline () ''aa bb cc'' () 25 = Inr (''aa bb'' @ [CHR 0x0A] @ ''cc'')
   \<and> wrap_for_multiline () (''aa bb'' @ [CHR 0x0A] @ ''cc'') () 25
       = Inr (''aa bb'' @ [CHR 0x0A] @ ''cc'')"
proof -
  have h1: "(5 :: int) \<le> 25" by simp
  have h2: "\<forall>c \<in> set ''aa bb cc''. py_isspace c \<longrightarrow> tw_whitespace c"
    by (simp add: char_class_eval)
  have h3: "\<forall>word \<in> set (py_split (replace_escaped_newlines ''aa bb cc'')).
      int (length word) \<le> 25 div 5"
    by (simp add: py_split_def char_class_eval)
  have f: "wrap_for_multiline () ''aa bb cc'' () 25 = Inr (''aa bb'' @ [CHR 0x0A] @ ''cc'')"
    by (simp add: wrap_eval)
  from wrap_is_idempotent_when_words_fit [OF h1 h2 h3, of "()" "()"] f
  show ?thesis by auto
qed

text \<open>
  The claim as stated fails where a word has to be broken: at a wrap width of 10 pixels
  (two characters a line) the caption \<open>a bbb\<close> is wrapped to the lines \<open>a\<close> with a
  trailing blank, \<open>bb\<close> and \<open>b\<close>, and wrapping that block again drops the blank.
  It also fails for whitespace that \<open>textwrap\<close> does not know: the caption \<open>ab\<close>, a
  blank and the file separator (code 28), whose only word is \<open>ab\<close>, is wrapped at 25
  pixels to \<open>ab\<close> with a trailing blank, which the second wrap drops.
\<close>

theorem wrap_twice_drops_trailing_blank:
  "wrap_for_multiline () ''a bbb'' () 10
     = Inr (''a '' @ [CHR 0x0A] @ ''bb'' @ [CHR 0x0A] @ ''b'')
   \<and> wrap_for_multiline () (''a '' @ [CHR 0x0A] @ ''bb'' @ [CHR 0x0A] @ ''b'') () 10
     = Inr (''a'' @ [CHR 0x0A] @ ''bb'' @ [CHR 0x0A] @ ''b'')
   \<and> py_split (''ab '' @ [CHR 0x1C]) = [''ab'']
   \<and> wrap_for_multiline () (''ab '' @ [CHR 0x1C]) () 25 = Inr ''ab ''
   \<and> wrap_for_multiline () ''ab '' () 25 = Inr ''ab''"
  by (simp add: wrap_eval py_split_def)

end
